theory Spec2Isabelle
  imports Complex_Main "HOL-Library.AList" "HOL-Library.Multiset"
    "HOL-Library.Char_ord" "HOL-Library.List_Lexorder" "HOL-Library.Product_Lexorder"
begin

section \<open>Data model\<close>

text \<open>
  The routing engine of \<^verbatim>\<open>metro_graph.py\<close>. A station and a line are identified by their
  names. Distances are Python floats in the source; they are modelled as exact real numbers,
  with \<open>float("infinity")\<close> as a value of its own, above every other. Dictionaries keep their insertion order and
  are association lists; the station set is the list of its members in the order of their first
  insertion. An exception is a value of type \<open>error\<close>, and a result of type \<open>error + 'a\<close> is
  \<open>Inl\<close> when the exception reaches the caller.
\<close>

datatype error = KeyError string

datatype dist = Fin real | Infinity

instantiation dist :: linorder
begin

fun less_eq_dist :: "dist \<Rightarrow> dist \<Rightarrow> bool" where
  "less_eq_dist (Fin a) (Fin b) = (a \<le> b)"
| "less_eq_dist d Infinity = True"
| "less_eq_dist Infinity (Fin b) = False"

definition less_dist :: "dist \<Rightarrow> dist \<Rightarrow> bool" where
  "less_dist a b = (a \<le> b \<and> \<not> b \<le> a)"

instance
proof
  fix x y z :: dist
  show "(x < y) = (x \<le> y \<and> \<not> y \<le> x)" by (simp add: less_dist_def)
  show "x \<le> x" by (cases x) simp_all
  show "x \<le> y \<Longrightarrow> y \<le> z \<Longrightarrow> x \<le> z" by (cases x; cases y; cases z) simp_all
  show "x \<le> y \<Longrightarrow> y \<le> x \<Longrightarrow> x = y" by (cases x; cases y) simp_all
  show "x \<le> y \<or> y \<le> x" by (cases x; cases y) auto
qed

end

lemma dist_less_simps [simp, code]:
  "Fin a < Fin b \<longleftrightarrow> a < b"
  "Fin a < Infinity \<longleftrightarrow> True"
  "Infinity < d \<longleftrightarrow> False"
  by (cases d; auto simp: less_dist_def)+

type_synonym edge = "string \<times> string \<times> real"

record line_change =
  station :: string
  from_lines :: "string set"
  to_lines :: "string set"
  position :: nat

type_synonym route = "string list \<times> real \<times> line_change list"


record MetroGraph =
  graph :: "(string \<times> (string \<times> real) list) list"
  stations :: "string list"
  station_lines :: "(string \<times> string list) list"
  lines :: "(string \<times> string list) list"

section \<open>The static tables\<close>

definition yellow_line :: "(string \<times> string \<times> real) list" where
  "yellow_line = [
    (''Samaypur Badli'', ''Rohini Sector 18,19'', 1.3),
    (''Rohini Sector 18,19'', ''Haiderpur Badli Mor'', 1.2),
    (''Haiderpur Badli Mor'', ''Jahangirpuri'', 1.4),
    (''Jahangirpuri'', ''Adarsh Nagar'', 1.3),
    (''Adarsh Nagar'', ''Azadpur'', 1.5),
    (''Azadpur'', ''Model Town'', 1.4),
    (''Model Town'', ''GTB Nagar'', 1.4),
    (''GTB Nagar'', ''Vishwa Vidyalaya'', 0.8),
    (''Vishwa Vidyalaya'', ''Vidhan Sabha'', 1.0),
    (''Vidhan Sabha'', ''Civil Lines'', 1.3),
    (''Civil Lines'', ''Kashmere Gate'', 1.1),
    (''Kashmere Gate'', ''Chandni Chowk'', 1.1),
    (''Chandni Chowk'', ''Chawri Bazar'', 1.0),
    (''Chawri Bazar'', ''New Delhi'', 0.8),
    (''New Delhi'', ''Rajiv Chowk'', 1.1),
    (''Rajiv Chowk'', ''Patel Chowk'', 1.3),
    (''Patel Chowk'', ''Central Secretariat'', 0.9),
    (''Central Secretariat'', ''Udyog Bhawan'', 0.3),
    (''Udyog Bhawan'', ''Lok Kalyan Marg'', 1.6),
    (''Lok Kalyan Marg'', ''Jor Bagh'', 1.2),
    (''Jor Bagh'', ''INA'', 1.3),
    (''INA'', ''AIIMS'', 0.8),
    (''AIIMS'', ''Green Park'', 1.0),
    (''Green Park'', ''Hauz Khas'', 1.8),
    (''Hauz Khas'', ''Malviya Nagar'', 1.7),
    (''Malviya Nagar'', ''Saket'', 0.9),
    (''Saket'', ''Qutab Minar'', 1.7),
    (''Qutab Minar'', ''Chhatarpur'', 1.5),
    (''Chhatarpur'', ''Sultanpur'', 1.5),
    (''Sultanpur'', ''Ghitorni'', 1.3),
    (''Ghitorni'', ''Arjan Garh'', 2.7),
    (''Arjan Garh'', ''Guru Dronacharya'', 2.3),
    (''Guru Dronacharya'', ''Sikanderpur'', 1.0),
    (''Sikanderpur'', ''MG Road'', 1.2),
    (''MG Road'', ''IFFCO Chowk'', 1.1),
    (''IFFCO Chowk'', ''Huda City Centre'', 1.5)]"

definition blue_line :: "(string \<times> string \<times> real) list" where
  "blue_line = [
    (''Dwarka Sector 21'', ''Dwarka Sector 8'', 2.6),
    (''Dwarka Sector 8'', ''Dwarka Sector 9'', 1.7),
    (''Dwarka Sector 9'', ''Dwarka Sector 10'', 1.0),
    (''Dwarka Sector 10'', ''Dwarka Sector 11'', 1.2),
    (''Dwarka Sector 11'', ''Dwarka Sector 12'', 1.0),
    (''Dwarka Sector 12'', ''Dwarka Sector 13'', 1.1),
    (''Dwarka Sector 13'', ''Dwarka Sector 14'', 1.1),
    (''Dwarka Sector 14'', ''Dwarka'', 1.0),
    (''Dwarka'', ''Dwarka Mor'', 1.2),
    (''Dwarka Mor'', ''Nawada'', 1.7),
    (''Nawada'', ''Uttam Nagar West'', 1.0),
    (''Uttam Nagar West'', ''Uttam Nagar East'', 0.9),
    (''Uttam Nagar East'', ''Janakpuri West'', 1.0),
    (''Janakpuri West'', ''Janakpuri East'', 1.1),
    (''Janakpuri East'', ''Tilak Nagar'', 1.1),
    (''Tilak Nagar'', ''Subhash Nagar'', 1.3),
    (''Subhash Nagar'', ''Tagore Garden'', 1.0),
    (''Tagore Garden'', ''Rajouri Garden'', 1.2),
    (''Rajouri Garden'', ''Ramesh Nagar'', 1.2),
    (''Ramesh Nagar'', ''Moti Nagar'', 1.2),
    (''Moti Nagar'', ''Kirti Nagar'', 1.1),
    (''Kirti Nagar'', ''Shadipur'', 0.7),
    (''Shadipur'', ''Patel Nagar'', 1.3),
    (''Patel Nagar'', ''Rajendra Place'', 1.1),
    (''Rajendra Place'', ''Karol Bagh'', 1.1),
    (''Karol Bagh'', ''Jhandewalan'', 1.2),
    (''Jhandewalan'', ''Ramakrishna Ashram Marg'', 0.8),
    (''Ramakrishna Ashram Marg'', ''Rajiv Chowk'', 1.1),
    (''Rajiv Chowk'', ''Barakhamba Road'', 0.7),
    (''Barakhamba Road'', ''Mandi House'', 1.0),
    (''Mandi House'', ''Supreme Court'', 0.9),
    (''Supreme Court'', ''Indraprastha'', 1.1),
    (''Indraprastha'', ''Yamuna Bank'', 1.8),
    (''Yamuna Bank'', ''Akshardham'', 1.3),
    (''Akshardham'', ''Mayur Vihar Phase 1'', 1.8),
    (''Mayur Vihar Phase 1'', ''Mayur Vihar Extension'', 1.2),
    (''Mayur Vihar Extension'', ''New Ashok Nagar'', 1.0),
    (''New Ashok Nagar'', ''Noida Sector 15'', 1.7),
    (''Noida Sector 15'', ''Noida Sector 16'', 1.1),
    (''Noida Sector 16'', ''Noida Sector 18'', 1.5),
    (''Noida Sector 18'', ''Botanical Garden'', 1.6),
    (''Botanical Garden'', ''Golf Course'', 1.2),
    (''Golf Course'', ''Noida City Centre'', 1.3),
    (''Noida City Centre'', ''Noida Sector 62'', 1.6),
    (''Noida Sector 62'', ''Noida Electronic City'', 1.5)]"

definition blue_line_branch :: "(string \<times> string \<times> real) list" where
  "blue_line_branch = [
    (''Yamuna Bank'', ''Laxmi Nagar'', 1.3),
    (''Laxmi Nagar'', ''Nirman Vihar'', 1.1),
    (''Nirman Vihar'', ''Preet Vihar'', 1.0),
    (''Preet Vihar'', ''Karkardooma'', 1.2),
    (''Karkardooma'', ''Anand Vihar ISBT'', 1.1),
    (''Anand Vihar ISBT'', ''Kaushambi'', 0.8),
    (''Kaushambi'', ''Vaishali'', 1.6)]"

definition red_line :: "(string \<times> string \<times> real) list" where
  "red_line = [
    (''Rithala'', ''Rohini West'', 1.5),
    (''Rohini West'', ''Rohini East'', 1.2),
    (''Rohini East'', ''Pitampura'', 1.1),
    (''Pitampura'', ''Kohat Enclave'', 1.1),
    (''Kohat Enclave'', ''Netaji Subhash Place'', 0.9),
    (''Netaji Subhash Place'', ''Keshav Puram'', 1.2),
    (''Keshav Puram'', ''Kanhaiya Nagar'', 0.8),
    (''Kanhaiya Nagar'', ''Inderlok'', 1.2),
    (''Inderlok'', ''Shastri Nagar'', 1.2),
    (''Shastri Nagar'', ''Pratap Nagar'', 1.7),
    (''Pratap Nagar'', ''Pulbangash'', 0.8),
    (''Pulbangash'', ''Tis Hazari'', 0.9),
    (''Tis Hazari'', ''Kashmere Gate'', 1.1),
    (''Kashmere Gate'', ''Shastri Park'', 2.2),
    (''Shastri Park'', ''Seelampur'', 1.6),
    (''Seelampur'', ''Welcome'', 1.1),
    (''Welcome'', ''Shahdara'', 1.3),
    (''Shahdara'', ''Mansarovar Park'', 1.1),
    (''Mansarovar Park'', ''Jhilmil'', 1.1),
    (''Jhilmil'', ''Dilshad Garden'', 1.3),
    (''Dilshad Garden'', ''Shaheed Nagar'', 1.1),
    (''Shaheed Nagar'', ''Raj Bagh'', 1.2),
    (''Raj Bagh'', ''Rajendra Nagar'', 1.1),
    (''Rajendra Nagar'', ''Shyam Park'', 1.0),
    (''Shyam Park'', ''Mohan Nagar'', 1.3),
    (''Mohan Nagar'', ''Arthala'', 1.0),
    (''Arthala'', ''Hindon River'', 0.9),
    (''Hindon River'', ''Shaheed Sthal'', 1.4)]"

definition green_line :: "(string \<times> string \<times> real) list" where
  "green_line = [
    (''Inderlok'', ''Ashok Park Main'', 1.4),
    (''Ashok Park Main'', ''Punjabi Bagh'', 1.3),
    (''Punjabi Bagh'', ''Shivaji Park'', 1.6),
    (''Shivaji Park'', ''Madipur'', 1.1),
    (''Madipur'', ''Paschim Vihar East'', 1.2),
    (''Paschim Vihar East'', ''Paschim Vihar West'', 1.0),
    (''Paschim Vihar West'', ''Peera Garhi'', 1.7),
    (''Peera Garhi'', ''Udyog Nagar'', 0.8),
    (''Udyog Nagar'', ''Surajmal Stadium'', 1.2),
    (''Surajmal Stadium'', ''Nangloi'', 1.1),
    (''Nangloi'', ''Nangloi Railway Station'', 0.9),
    (''Nangloi Railway Station'', ''Rajdhani Park'', 1.1),
    (''Rajdhani Park'', ''Mundka'', 1.4),
    (''Mundka'', ''Mundka Industrial Area'', 1.2),
    (''Mundka Industrial Area'', ''Ghevra'', 1.3),
    (''Ghevra'', ''Tikri Kalan'', 1.1),
    (''Tikri Kalan'', ''Tikri Border'', 1.0),
    (''Tikri Border'', ''Pandit Shree Ram Sharma'', 1.2),
    (''Pandit Shree Ram Sharma'', ''Bahadurgarh City'', 1.3),
    (''Bahadurgarh City'', ''Brigadier Hoshiar Singh'', 1.5)]"

definition green_line_branch :: "(string \<times> string \<times> real) list" where
  "green_line_branch = [
    (''Ashok Park Main'', ''Satguru Ram Singh Marg'', 1.1),
    (''Satguru Ram Singh Marg'', ''Kirti Nagar'', 1.0)]"

definition violet_line :: "(string \<times> string \<times> real) list" where
  "violet_line = [
    (''Kashmere Gate'', ''Lal Quila'', 1.5),
    (''Lal Quila'', ''Jama Masjid'', 0.8),
    (''Jama Masjid'', ''Delhi Gate'', 1.4),
    (''Delhi Gate'', ''ITO'', 1.3),
    (''ITO'', ''Mandi House'', 0.8),
    (''Mandi House'', ''Janpath'', 1.0),
    (''Janpath'', ''Central Secretariat'', 1.1),
    (''Central Secretariat'', ''Khan Market'', 2.1),
    (''Khan Market'', ''JLN Stadium'', 1.4),
    (''JLN Stadium'', ''Jangpura'', 0.9),
    (''Jangpura'', ''Lajpat Nagar'', 1.5),
    (''Lajpat Nagar'', ''Moolchand'', 1.0),
    (''Moolchand'', ''Kailash Colony'', 1.3),
    (''Kailash Colony'', ''Nehru Place'', 1.0),
    (''Nehru Place'', ''Kalkaji Mandir'', 1.2),
    (''Kalkaji Mandir'', ''Govind Puri'', 0.9),
    (''Govind Puri'', ''Harkesh Nagar'', 1.2),
    (''Harkesh Nagar'', ''Jasola Apollo'', 0.9),
    (''Jasola Apollo'', ''Sarita Vihar'', 1.5),
    (''Sarita Vihar'', ''Mohan Estate'', 1.4),
    (''Mohan Estate'', ''Tughlakabad'', 1.3),
    (''Tughlakabad'', ''Badarpur'', 1.7),
    (''Badarpur'', ''Sarai'', 1.9),
    (''Sarai'', ''NHPC Chowk'', 1.3),
    (''NHPC Chowk'', ''Mewala Maharajpur'', 1.2),
    (''Mewala Maharajpur'', ''Sector 28'', 1.1),
    (''Sector 28'', ''Badkal Mor'', 1.6),
    (''Badkal Mor'', ''Faridabad Old'', 1.7),
    (''Faridabad Old'', ''Neelam Chowk Ajronda'', 1.4),
    (''Neelam Chowk Ajronda'', ''Bata Chowk'', 1.4),
    (''Bata Chowk'', ''Escorts Mujesar'', 1.6),
    (''Escorts Mujesar'', ''Raja Nahar Singh'', 1.5)]"

definition magenta_line :: "(string \<times> string \<times> real) list" where
  "magenta_line = [
    (''Janakpuri West'', ''Dabri Mor'', 1.2),
    (''Dabri Mor'', ''Dashrath Puri'', 1.1),
    (''Dashrath Puri'', ''Palam'', 1.3),
    (''Palam'', ''Sadar Bazaar Cantonment'', 1.4),
    (''Sadar Bazaar Cantonment'', ''Terminal 1 IGI Airport'', 1.7),
    (''Terminal 1 IGI Airport'', ''Shankar Vihar'', 1.5),
    (''Shankar Vihar'', ''Vasant Vihar'', 1.3),
    (''Vasant Vihar'', ''Munirka'', 1.0),
    (''Munirka'', ''R.K Puram'', 1.2),
    (''R.K Puram'', ''IIT Delhi'', 1.1),
    (''IIT Delhi'', ''Hauz Khas'', 1.0),
    (''Hauz Khas'', ''Panchsheel Park'', 1.3),
    (''Panchsheel Park'', ''Chirag Delhi'', 1.2),
    (''Chirag Delhi'', ''Greater Kailash'', 1.1),
    (''Greater Kailash'', ''Nehru Enclave'', 1.0),
    (''Nehru Enclave'', ''Kalkaji Mandir'', 1.2),
    (''Kalkaji Mandir'', ''Okhla NSIC'', 1.3),
    (''Okhla NSIC'', ''Sukhdev Vihar'', 1.0),
    (''Sukhdev Vihar'', ''Jamia Millia Islamia'', 1.1),
    (''Jamia Millia Islamia'', ''Okhla Vihar'', 1.2),
    (''Okhla Vihar'', ''Jasola Vihar Shaheen Bagh'', 1.0),
    (''Jasola Vihar Shaheen Bagh'', ''Kalindi Kunj'', 1.4),
    (''Kalindi Kunj'', ''Okhla Bird Sanctuary'', 1.2),
    (''Okhla Bird Sanctuary'', ''Botanical Garden'', 1.3)]"

definition pink_line :: "(string \<times> string \<times> real) list" where
  "pink_line = [
    (''Majlis Park'', ''Azadpur'', 1.5),
    (''Azadpur'', ''Shalimar Bagh'', 1.2),
    (''Shalimar Bagh'', ''Netaji Subhash Place'', 1.3),
    (''Netaji Subhash Place'', ''Shakurpur'', 1.1),
    (''Shakurpur'', ''Punjabi Bagh West'', 1.4),
    (''Punjabi Bagh West'', ''ESI Hospital'', 1.2),
    (''ESI Hospital'', ''Rajouri Garden'', 1.1),
    (''Rajouri Garden'', ''Maya Puri'', 1.5),
    (''Maya Puri'', ''Naraina Vihar'', 1.0),
    (''Naraina Vihar'', ''Delhi Cantt'', 1.3),
    (''Delhi Cantt'', ''Durgabai Deshmukh South Campus'', 1.4),
    (''Durgabai Deshmukh South Campus'', ''Sir Vishweshwaraiah Moti Bagh'', 1.2),
    (''Sir Vishweshwaraiah Moti Bagh'', ''Bhikaji Cama Place'', 1.1),
    (''Bhikaji Cama Place'', ''Sarojini Nagar'', 1.0),
    (''Sarojini Nagar'', ''INA'', 1.3),
    (''INA'', ''South Extension'', 1.2),
    (''South Extension'', ''Lajpat Nagar'', 1.1),
    (''Lajpat Nagar'', ''Vinobapuri'', 1.0),
    (''Vinobapuri'', ''Ashram'', 1.2),
    (''Ashram'', ''Hazrat Nizamuddin'', 1.3),
    (''Hazrat Nizamuddin'', ''Mayur Vihar Phase 1'', 1.8),
    (''Mayur Vihar Phase 1'', ''Mayur Vihar Pocket 1'', 1.0),
    (''Mayur Vihar Pocket 1'', ''Trilokpuri Sanjay Lake'', 1.2),
    (''Trilokpuri Sanjay Lake'', ''East Vinod Nagar'', 1.1),
    (''East Vinod Nagar'', ''IP Extension'', 1.0),
    (''IP Extension'', ''Anand Vihar ISBT'', 1.3),
    (''Anand Vihar ISBT'', ''Karkardooma'', 1.2),
    (''Karkardooma'', ''Karkardooma Court'', 1.1),
    (''Karkardooma Court'', ''Krishna Nagar'', 1.0),
    (''Krishna Nagar'', ''East Azad Nagar'', 1.1),
    (''East Azad Nagar'', ''Welcome'', 1.2),
    (''Welcome'', ''Jaffrabad'', 1.0),
    (''Jaffrabad'', ''Maujpur'', 1.1),
    (''Maujpur'', ''Gokulpuri'', 1.2),
    (''Gokulpuri'', ''Johri Enclave'', 1.1),
    (''Johri Enclave'', ''Shiv Vihar'', 1.3)]"

definition grey_line :: "(string \<times> string \<times> real) list" where
  "grey_line = [
    (''Dwarka'', ''Nangli'', 1.3),
    (''Nangli'', ''Najafgarh'', 1.2),
    (''Najafgarh'', ''Dhansa Bus Stand'', 1.1)]"
definition line_tables :: "(string \<times> edge list) list" where
  "line_tables =
    [(''Yellow'', yellow_line), (''Blue'', blue_line), (''Blue Branch'', blue_line_branch),
     (''Red'', red_line), (''Green'', green_line), (''Green Branch'', green_line_branch),
     (''Violet'', violet_line), (''Magenta'', magenta_line), (''Pink'', pink_line),
     (''Grey'', grey_line)]"

section \<open>Construction of the network\<close>

text \<open>\<open>self.stations.add(s)\<close>.\<close>

definition add_station :: "string \<Rightarrow> string list \<Rightarrow> string list" where
  "add_station s ss = (if s \<in> set ss then ss else ss @ [s])"

text \<open>\<open>if s not in d: d[s] = v\<close> on a dictionary.\<close>

definition setdefault :: "'k \<Rightarrow> 'v \<Rightarrow> ('k \<times> 'v) list \<Rightarrow> ('k \<times> 'v) list" where
  "setdefault k v d = (if k \<in> fst ` set d then d else d @ [(k, v)])"

text \<open>\<open>self.graph[a][b] = d\<close>, once \<open>a\<close> is a key of the graph.\<close>

definition set_edge ::
  "string \<Rightarrow> string \<Rightarrow> real \<Rightarrow> (string \<times> (string \<times> real) list) list
    \<Rightarrow> (string \<times> (string \<times> real) list) list" where
  "set_edge a b d gr = AList.map_entry a (AList.update b d) gr"

text \<open>The body of the loop \<open>for station1, station2, distance in all_lines\<close>.\<close>

definition add_connection :: "edge \<Rightarrow> MetroGraph \<Rightarrow> MetroGraph" where
  "add_connection e g =
    (case e of (station1, station2, d) \<Rightarrow>
      g\<lparr>stations := add_station station2 (add_station station1 (stations g)),
        graph := set_edge station2 station1 d (set_edge station1 station2 d
                   (setdefault station2 [] (setdefault station1 [] (graph g))))\<rparr>)"

text \<open>The body of the loop that maps stations to their lines.\<close>

definition add_line_membership ::
  "string \<Rightarrow> string \<Rightarrow> (string \<times> string list) list \<Rightarrow> (string \<times> string list) list" where
  "add_line_membership line_name s sl =
    AList.map_entry s (\<lambda>ls. if line_name \<in> set ls then ls else ls @ [line_name])
      (setdefault s [] sl)"

definition line_stations :: "edge list \<Rightarrow> string list" where
  "line_stations es = concat (map (\<lambda>(station1, station2, _). [station1, station2]) es)"

definition initialize_metro_network :: "(string \<times> edge list) list \<Rightarrow> MetroGraph" where
  "initialize_metro_network tables =
    (let all_lines = concat (map snd tables);
         lns = fold (\<lambda>(name, es). AList.update name (line_stations es)) tables [];
         g = fold add_connection all_lines
               \<lparr>graph = [], stations = [], station_lines = [], lines = lns\<rparr>
     in g\<lparr>station_lines :=
            fold (\<lambda>(line_name, sts). fold (add_line_membership line_name) sts) lns []\<rparr>)"

definition metro :: MetroGraph where
  "metro = initialize_metro_network line_tables"

section \<open>Fares\<close>

record fare =
  token_fare :: int
  smart_card_fare :: int
  savings :: int
  recommended_fare :: int

definition calculate_fare :: "real \<Rightarrow> bool \<Rightarrow> fare" where
  "calculate_fare d use_smart_card =
    (let token = (if d \<le> 2 then 10 else if d \<le> 5 then 20 else if d \<le> 12 then 30
                  else if d \<le> 21 then 40 else if d \<le> 32 then 50 else 60 :: int);
         smart = \<lfloor>real_of_int token * 0.9\<rfloor>
     in \<lparr>token_fare = token, smart_card_fare = smart, savings = token - smart,
         recommended_fare = (if use_smart_card then smart else token)\<rparr>)"

section \<open>Resolution of station names\<close>

text \<open>
  \<open>str.strip\<close> and \<open>str.lower\<close> on ASCII text: the white space of Python is the characters
  9 to 13 and 28 to 32, and only the letters A to Z change case.
\<close>

definition is_space :: "char \<Rightarrow> bool" where
  "is_space c = (let n = (of_char c :: nat) in (9 \<le> n \<and> n \<le> 13) \<or> (28 \<le> n \<and> n \<le> 32))"

definition strip :: "string \<Rightarrow> string" where
  "strip s = rev (dropWhile is_space (rev (dropWhile is_space s)))"

definition lower_char :: "char \<Rightarrow> char" where
  "lower_char c = (let n = (of_char c :: nat) in if 65 \<le> n \<and> n \<le> 90 then char_of (n + 32) else c)"

definition lower :: "string \<Rightarrow> string" where
  "lower s = map lower_char s"

definition normalize_station_name :: "string \<Rightarrow> string" where
  "normalize_station_name name = lower (strip name)"

text \<open>
  The dictionary comprehension over \<open>self.stations\<close>: a later station replaces an earlier one
  with the same normalized name.
\<close>

definition get_station_mapping :: "MetroGraph \<Rightarrow> (string \<times> string) list" where
  "get_station_mapping g =
    fold (\<lambda>s. AList.update (normalize_station_name s) s) (stations g) []"

section \<open>Line changes along a path\<close>

definition lines_of :: "MetroGraph \<Rightarrow> string \<Rightarrow> string set" where
  "lines_of g s = set (case map_of (station_lines g) s of None \<Rightarrow> [] | Some ls \<Rightarrow> ls)"

text \<open>
  The loop of \<open>_identify_line_changes\<close> from index \<open>i\<close> on; the first station only sets the
  current lines.
\<close>

fun identify_from ::
  "MetroGraph \<Rightarrow> nat \<Rightarrow> string set \<Rightarrow> string list \<Rightarrow> line_change list" where
  "identify_from g i current_lines [] = []"
| "identify_from g i current_lines (s # rest) =
    (let st_lines = lines_of g s;
         common_lines = current_lines \<inter> st_lines
     in if common_lines = {} \<and> current_lines \<noteq> {} \<and> st_lines \<noteq> {}
        then \<lparr>station = s, from_lines = current_lines, to_lines = st_lines, position = i\<rparr>
               # identify_from g (Suc i) st_lines rest
        else if common_lines \<noteq> {} then identify_from g (Suc i) common_lines rest
        else identify_from g (Suc i) current_lines rest)"

definition identify_line_changes :: "MetroGraph \<Rightarrow> string list \<Rightarrow> line_change list" where
  "identify_line_changes g p =
    (case p of [] \<Rightarrow> [] | s # rest \<Rightarrow> identify_from g 1 (lines_of g s) rest)"

section \<open>Priority queues\<close>

text \<open>
  \<open>heapq\<close> keeps the queue as a binary heap; \<open>heappop\<close> removes and returns a least entry.
  The entries are Python tuples, compared lexicographically, strings by their code points and
  lists of strings lexicographically again. The queue is modelled as the list of its entries
  and \<open>heappop\<close> as the removal of the least one.
\<close>

definition heappush :: "'a list \<Rightarrow> 'a \<Rightarrow> 'a list" where
  "heappush pq x = x # pq"

definition heappop :: "('a::linorder) list \<Rightarrow> 'a \<times> 'a list" where
  "heappop pq = (let m = min_list pq in (m, remove1 m pq))"

text \<open>\<open>round(x, 2)\<close> on an exact value: to the nearest hundredth, a tie to the even one.\<close>

definition round2 :: "real \<Rightarrow> real" where
  "round2 x =
    (let y = x * 100; f = \<lfloor>y\<rfloor>; r = y - of_int f
     in of_int (if r < 1 / 2 then f else if 1 / 2 < r then f + 1
                else if even f then f else f + 1) / 100)"

section \<open>Shortest path\<close>

text \<open>The loop over the neighbours of the station just visited.\<close>

fun relax ::
  "string \<Rightarrow> real \<Rightarrow> string set \<Rightarrow> (string \<times> real) list
    \<Rightarrow> (real \<times> string) list \<times> (string \<rightharpoonup> dist) \<times> (string \<rightharpoonup> string option)
    \<Rightarrow> error + (real \<times> string) list \<times> (string \<rightharpoonup> dist) \<times> (string \<rightharpoonup> string option)" where
  "relax current current_dist visited [] st = Inr st"
| "relax current current_dist visited ((neighbor, edge_distance) # rest) (pq, distances, previous) =
    (if neighbor \<in> visited then relax current current_dist visited rest (pq, distances, previous)
     else let new_distance = current_dist + edge_distance in
       case distances neighbor of
         None \<Rightarrow> Inl (KeyError neighbor)
       | Some dn \<Rightarrow>
           if Fin new_distance < dn
           then relax current current_dist visited rest
                  (heappush pq (new_distance, neighbor),
                   distances(neighbor \<mapsto> Fin new_distance),
                   previous(neighbor \<mapsto> Some current))
           else relax current current_dist visited rest (pq, distances, previous))"

text \<open>The loop \<open>while pq\<close>; it returns the two tables as they are when the loop is left.\<close>

function dijkstra_loop ::
  "MetroGraph \<Rightarrow> string \<Rightarrow> (real \<times> string) list \<Rightarrow> string set
    \<Rightarrow> (string \<rightharpoonup> dist) \<Rightarrow> (string \<rightharpoonup> string option)
    \<Rightarrow> error + (string \<rightharpoonup> dist) \<times> (string \<rightharpoonup> string option)" where
  "dijkstra_loop g dest pq visited distances previous =
    (if pq = [] then Inr (distances, previous)
     else let popped = heappop pq; current_dist = fst (fst popped); current = snd (fst popped);
              pq1 = snd popped in
       if current \<in> visited then dijkstra_loop g dest pq1 visited distances previous
       else let visited1 = insert current visited in
         if current = dest then Inr (distances, previous)
         else case distances current of
           None \<Rightarrow> Inl (KeyError current)
         | Some dc \<Rightarrow>
             if dc < Fin current_dist
             then dijkstra_loop g dest pq1 visited1 distances previous
             else case map_of (graph g) current of
               None \<Rightarrow> Inl (KeyError current)
             | Some nbrs \<Rightarrow>
                 (case relax current current_dist visited1 nbrs (pq1, distances, previous) of
                    Inl e \<Rightarrow> Inl e
                  | Inr (pq2, distances2, previous2) \<Rightarrow>
                      dijkstra_loop g dest pq2 visited1 distances2 previous2))"
  by pat_completeness auto

text \<open>
  The loop \<open>while current\<close> that follows the predecessors: it stops at \<open>None\<close> and at the
  empty string, the two values Python takes as false.
\<close>

partial_function (option) backtrack ::
  "(string \<rightharpoonup> string option) \<Rightarrow> string option \<Rightarrow> string list \<Rightarrow> (error + string list) option" where
  "backtrack previous current pth =
    (case current of
       None \<Rightarrow> Some (Inr pth)
     | Some c \<Rightarrow>
         if c = [] then Some (Inr pth)
         else case previous c of
           None \<Rightarrow> Some (Inl (KeyError c))
         | Some p \<Rightarrow> backtrack previous p (pth @ [c]))"

definition no_route :: route where
  "no_route = ([], 0, [])"

text \<open>The body of the \<open>try\<close> block; \<open>None\<close> stands for a run that does not return.\<close>

definition shortest_path_body :: "MetroGraph \<Rightarrow> string \<Rightarrow> string \<Rightarrow> (error + route) option" where
  "shortest_path_body g start dest =
    (let station_map = get_station_mapping g;
         start_norm = normalize_station_name start;
         end_norm = normalize_station_name dest
     in case map_of station_map start_norm of
       None \<Rightarrow> Some (Inr no_route)
     | Some start1 \<Rightarrow>
        (case map_of station_map end_norm of
           None \<Rightarrow> Some (Inr no_route)
         | Some end1 \<Rightarrow>
            if start1 \<notin> fst ` set (graph g) \<or> end1 \<notin> fst ` set (graph g)
            then Some (Inr no_route)
            else let distances = (map_of (map (\<lambda>s. (s, Infinity)) (stations g)))(start1 \<mapsto> Fin 0);
                     previous = map_of (map (\<lambda>s. (s, None)) (stations g))
              in case dijkstra_loop g end1 [(0, start1)] {} distances previous of
                Inl e \<Rightarrow> Some (Inl e)
              | Inr (distances1, previous1) \<Rightarrow>
                 (case distances1 end1 of
                    None \<Rightarrow> Some (Inl (KeyError end1))
                  | Some Infinity \<Rightarrow> Some (Inr no_route)
                  | Some (Fin d) \<Rightarrow>
                     (case backtrack previous1 (Some end1) [] of
                        None \<Rightarrow> None
                      | Some (Inl e) \<Rightarrow> Some (Inl e)
                      | Some (Inr pth) \<Rightarrow>
                          Some (Inr (rev pth, round2 d, identify_line_changes g (rev pth)))))))"

text \<open>\<open>except Exception\<close>: whatever the body raises becomes the empty result.\<close>

definition catch_all :: "error + route \<Rightarrow> error + route" where
  "catch_all r = (case r of Inl e \<Rightarrow> Inr no_route | Inr x \<Rightarrow> Inr x)"

definition find_shortest_path :: "MetroGraph \<Rightarrow> string \<Rightarrow> string \<Rightarrow> (error + route) option" where
  "find_shortest_path g start dest =
    (if start = [] \<or> dest = [] then Some (Inr no_route)
     else map_option catch_all (shortest_path_body g start dest))"

section \<open>Least line changes\<close>

type_synonym lc_entry = "nat \<times> real \<times> string \<times> string list \<times> string set"

definition lc_key :: "lc_entry \<Rightarrow> nat \<times> real \<times> string \<times> string list" where
  "lc_key e = (case e of (changes, d, current, pth, current_lines) \<Rightarrow> (changes, d, current, pth))"

text \<open>The components of a queue entry \<open>(changes, dist, current, path, current_lines)\<close>.\<close>

abbreviation e_changes :: "lc_entry \<Rightarrow> nat" where
  "e_changes e \<equiv> fst e"

abbreviation e_dist :: "lc_entry \<Rightarrow> real" where
  "e_dist e \<equiv> fst (snd e)"

abbreviation e_station :: "lc_entry \<Rightarrow> string" where
  "e_station e \<equiv> fst (snd (snd e))"

abbreviation e_path :: "lc_entry \<Rightarrow> string list" where
  "e_path e \<equiv> fst (snd (snd (snd e)))"

abbreviation e_lines :: "lc_entry \<Rightarrow> string set" where
  "e_lines e \<equiv> snd (snd (snd (snd e)))"

text \<open>The body of the loop over the neighbours of the popped state.\<close>

definition expand :: "MetroGraph \<Rightarrow> lc_entry \<Rightarrow> string \<times> real \<Rightarrow> lc_entry list \<Rightarrow> lc_entry list" where
  "expand g e nb pq =
    (case e of (changes, d, current, pth, current_lines) \<Rightarrow>
     case nb of (neighbor, edge_dist) \<Rightarrow>
       if neighbor \<in> set pth then pq
       else let neighbor_lines = lines_of g neighbor;
                common_lines = current_lines \<inter> neighbor_lines
         in if common_lines \<noteq> {}
            then heappush pq (changes, d + edge_dist, neighbor, pth @ [neighbor], common_lines)
            else heappush pq (changes + 1, d + edge_dist, neighbor, pth @ [neighbor], neighbor_lines))"

function least_changes_loop ::
  "MetroGraph \<Rightarrow> string \<Rightarrow> lc_entry list \<Rightarrow> (string \<times> string set \<rightharpoonup> nat) \<Rightarrow> error + route" where
  "least_changes_loop g dest pq visited =
    (if pq = [] then Inr no_route
     else let e = arg_min_list lc_key pq; pq1 = remove1 e pq;
              changes = fst e; d = fst (snd e); current = fst (snd (snd e));
              pth = fst (snd (snd (snd e))); current_lines = snd (snd (snd (snd e)))
       in if current = dest then Inr (pth, round2 d, identify_line_changes g pth)
          else if (case visited (current, current_lines) of None \<Rightarrow> False | Some c \<Rightarrow> c \<le> changes)
            then least_changes_loop g dest pq1 visited
            else case map_of (graph g) current of
              None \<Rightarrow> Inl (KeyError current)
            | Some nbrs \<Rightarrow>
                least_changes_loop g dest (fold (expand g e) nbrs pq1)
                  (visited((current, current_lines) \<mapsto> changes)))"
  by pat_completeness auto

definition least_changes_body :: "MetroGraph \<Rightarrow> string \<Rightarrow> string \<Rightarrow> error + route" where
  "least_changes_body g start dest =
    (let station_map = get_station_mapping g;
         start_norm = normalize_station_name start;
         end_norm = normalize_station_name dest
     in case map_of station_map start_norm of
       None \<Rightarrow> Inr no_route
     | Some start1 \<Rightarrow>
        (case map_of station_map end_norm of
           None \<Rightarrow> Inr no_route
         | Some end1 \<Rightarrow>
             least_changes_loop g end1 [(0, 0, start1, [start1], lines_of g start1)] Map.empty))"

definition find_route_least_changes :: "MetroGraph \<Rightarrow> string \<Rightarrow> string \<Rightarrow> error + route" where
  "find_route_least_changes g start dest =
    (if start = [] \<or> dest = [] then Inr no_route
     else catch_all (least_changes_body g start dest))"

section \<open>All routes\<close>


section \<open>Measures for the two searches\<close>

text \<open>Every name that occurs as a neighbour in the adjacency mapping.\<close>

definition neighbor_names :: "MetroGraph \<Rightarrow> string set" where
  "neighbor_names g = (\<Union>kv \<in> set (graph g). fst ` set (snd kv))"

text \<open>The stations a least-changes state may still be extended with.\<close>

definition potential :: "MetroGraph \<Rightarrow> lc_entry \<Rightarrow> nat" where
  "potential g e = card (neighbor_names g - set (fst (snd (snd (snd e)))))"

section \<open>Routes of the network\<close>

text \<open>The station a raw name resolves to: \<open>station_map[normalize(name)]\<close>, where it is.\<close>

definition resolve :: "MetroGraph \<Rightarrow> string \<Rightarrow> string option" where
  "resolve g name = map_of (get_station_mapping g) (normalize_station_name name)"

text \<open>\<open>b in self.graph[a]\<close>, and the weight \<open>self.graph[a][b]\<close> where it is.\<close>

definition adjacent :: "MetroGraph \<Rightarrow> string \<Rightarrow> string \<Rightarrow> bool" where
  "adjacent g a b =
    (case map_of (graph g) a of None \<Rightarrow> False | Some nbrs \<Rightarrow> b \<in> fst ` set nbrs)"

definition edge_weight :: "MetroGraph \<Rightarrow> string \<Rightarrow> string \<Rightarrow> real option" where
  "edge_weight g a b =
    (case map_of (graph g) a of None \<Rightarrow> None | Some nbrs \<Rightarrow> map_of nbrs b)"

text \<open>A walk: every station is adjacent to the next one.\<close>

fun is_walk :: "MetroGraph \<Rightarrow> string list \<Rightarrow> bool" where
  "is_walk g [] = True"
| "is_walk g [a] = True"
| "is_walk g (a # b # rest) = (adjacent g a b \<and> is_walk g (b # rest))"

definition route :: "MetroGraph \<Rightarrow> string \<Rightarrow> string list \<Rightarrow> string \<Rightarrow> bool" where
  "route g a p b = (p \<noteq> [] \<and> hd p = a \<and> last p = b \<and> is_walk g p)"

definition simple_route :: "MetroGraph \<Rightarrow> string \<Rightarrow> string list \<Rightarrow> string \<Rightarrow> bool" where
  "simple_route g a p b = (route g a p b \<and> distinct p)"

definition reachable :: "MetroGraph \<Rightarrow> string \<Rightarrow> string \<Rightarrow> bool" where
  "reachable g a b = (\<exists>p. route g a p b)"

text \<open>The sum of the weights along a path.\<close>

fun path_weight :: "MetroGraph \<Rightarrow> string list \<Rightarrow> real" where
  "path_weight g (a # b # rest) =
    (case edge_weight g a b of None \<Rightarrow> 0 | Some w \<Rightarrow> w) + path_weight g (b # rest)"
| "path_weight g p = 0"

text \<open>The number of line changes along a path, as \<open>_identify_line_changes\<close> reports them.\<close>

definition path_changes :: "MetroGraph \<Rightarrow> string list \<Rightarrow> nat" where
  "path_changes g p = length (identify_line_changes g p)"

text \<open>
  The weight the static table gives to a pair of stations: that of the last entry that joins
  them, in either direction.
\<close>

definition table_weight :: "edge list \<Rightarrow> string \<Rightarrow> string \<Rightarrow> real option" where
  "table_weight es a b =
    (case filter (\<lambda>(x, y, _). (x = a \<and> y = b) \<or> (x = b \<and> y = a)) es of
       [] \<Rightarrow> None
     | e # rest \<Rightarrow> Some (snd (snd (last (e # rest)))))"

section \<open>Invariants of the searches\<close>

text \<open>The two tables of the shortest-path search before its loop.\<close>

abbreviation init_distances :: "MetroGraph \<Rightarrow> string \<Rightarrow> (string \<rightharpoonup> dist)" where
  "init_distances g a \<equiv> (map_of (map (\<lambda>s. (s, Infinity)) (stations g)))(a \<mapsto> Fin 0)"

abbreviation init_previous :: "MetroGraph \<Rightarrow> (string \<rightharpoonup> string option)" where
  "init_previous g \<equiv> map_of (map (\<lambda>s. (s, None)) (stations g))"

text \<open>Every predecessor link follows an edge of the adjacency mapping.\<close>

definition links :: "MetroGraph \<Rightarrow> (string \<rightharpoonup> string option) \<Rightarrow> bool" where
  "links g pv = (\<forall>n p. pv n = Some (Some p) \<longrightarrow> adjacent g p n)"

text \<open>
  The predecessor table only points to visited stations, and from a visited station to one
  visited before it: \<open>rk\<close> numbers the visited stations in the order of their visits.
\<close>

definition ranked :: "string set \<Rightarrow> (string \<rightharpoonup> string option) \<Rightarrow> bool" where
  "ranked vis pv =
    (\<exists>rk (b::nat). (\<forall>n \<in> vis. rk n < b)
       \<and> (\<forall>n p. pv n = Some (Some p) \<longrightarrow> p \<in> vis \<and> (n \<in> vis \<longrightarrow> (rk p :: nat) < rk n)))"

text \<open>The state the least-changes search pushes for a neighbour that is not on the path.\<close>

definition successor :: "MetroGraph \<Rightarrow> lc_entry \<Rightarrow> string \<times> real \<Rightarrow> lc_entry" where
  "successor g e nb =
    (if e_lines e \<inter> lines_of g (fst nb) \<noteq> {}
     then (e_changes e, e_dist e + snd nb, fst nb, e_path e @ [fst nb],
           e_lines e \<inter> lines_of g (fst nb))
     else (e_changes e + 1, e_dist e + snd nb, fst nb, e_path e @ [fst nb],
           lines_of g (fst nb)))"

text \<open>A network whose adjacency mapping names a station that is not in the station set.\<close>

definition broken_network :: MetroGraph where
  "broken_network =
    \<lparr>graph = [(''a'', [(''b'', 1)]), (''c'', [])], stations = [''a'', ''c''],
     station_lines = [], lines = []\<rparr>"

text \<open>A small network: one line of three stations.\<close>

definition line_network :: MetroGraph where
  "line_network = initialize_metro_network [(''L'', [(''A'', ''B'', 1.3), (''B'', ''C'', 1.2)])]"

text \<open>A network of two lines that do not meet.\<close>

definition split_network :: MetroGraph where
  "split_network =
    initialize_metro_network [(''L'', [(''A'', ''B'', 1.3)]), (''M'', [(''C'', ''D'', 1.2)])]"

section \<open>Termination of the two searches\<close>

lemma finite_neighbor_names: "finite (neighbor_names g)"
  by (simp add: neighbor_names_def)

lemma neighbors_in_names:
  assumes "map_of (graph g) c = Some nbrs"
  shows "fst ` set nbrs \<subseteq> neighbor_names g"
proof -
  from assms have "(c, nbrs) \<in> set (graph g)" by (rule map_of_SomeD)
  then show ?thesis unfolding neighbor_names_def by force
qed

lemma heappop_mem: "pq \<noteq> [] \<Longrightarrow> fst (heappop pq) \<in> set pq"
  by (simp add: heappop_def Let_def min_list_Min)

lemma heappop_rest: "set (snd (heappop pq)) \<subseteq> set pq"
  by (simp add: heappop_def Let_def set_remove1_subset)

lemma heappop_length:
  assumes "pq \<noteq> []"
  shows "length (snd (heappop pq)) < length pq"
proof -
  from assms have "min_list pq \<in> set pq" by (simp add: min_list_Min)
  moreover from assms have "0 < length pq" by simp
  ultimately show ?thesis by (simp add: heappop_def Let_def length_remove1)
qed

lemma relax_queue:
  "relax c cd vis nbrs st = Inr st' \<Longrightarrow>
   snd ` set (fst st') \<subseteq> snd ` set (fst st) \<union> fst ` set nbrs"
proof (induction nbrs arbitrary: st)
  case Nil
  then show ?case by auto
next
  case (Cons nb rest)
  obtain n w where nb: "nb = (n, w)" by (cases nb)
  obtain pq ds pv where st: "st = (pq, ds, pv)" by (cases st)
  show ?case
  proof (cases "n \<in> vis")
    case True
    with Cons.prems nb st have "relax c cd vis rest st = Inr st'" by simp
    from Cons.IH [OF this] show ?thesis by auto
  next
    case False
    with Cons.prems nb st obtain dn where dn: "ds n = Some dn"
      by (cases "ds n") auto
    show ?thesis
    proof (cases "Fin (cd + w) < dn")
      case True
      with Cons.prems nb st False dn
      have "relax c cd vis rest
              (heappush pq (cd + w, n), ds(n \<mapsto> Fin (cd + w)), pv(n \<mapsto> Some c)) = Inr st'"
        by (simp add: Let_def)
      from Cons.IH [OF this] show ?thesis
        using nb st by (auto simp: heappush_def)
    next
      case no: False
      with Cons.prems nb st False dn have "relax c cd vis rest st = Inr st'" by (simp add: Let_def)
      from Cons.IH [OF this] show ?thesis by auto
    qed
  qed
qed

termination dijkstra_loop
proof (relation "inv_image (less_than <*lex*> less_than)
    (\<lambda>(g, dest, pq, visited, distances, previous).
       (card ((snd ` set pq \<union> neighbor_names g) - visited), length pq))", goal_cases)
  case 1
  show ?case by (intro wf_inv_image wf_lex_prod wf_less_than)
next
  case (2 g dest pq visited distances previous popped current_dist current pq1)
  then have "snd ` set pq1 \<subseteq> snd ` set pq"
    using heappop_rest [of pq] by auto
  then have "card ((snd ` set pq1 \<union> neighbor_names g) - visited)
      \<le> card ((snd ` set pq \<union> neighbor_names g) - visited)"
    by (intro card_mono) (auto simp: finite_neighbor_names)
  moreover from 2 have "length pq1 < length pq"
    using heappop_length [of pq] by simp
  ultimately show ?case by auto
next
  case (3 g dest pq visited distances previous popped current_dist current pq1 visited1 dc)
  then have sub: "snd ` set pq1 \<subseteq> snd ` set pq"
    using heappop_rest [of pq] by auto
  from 3 have cur: "current \<in> snd ` set pq"
    using heappop_mem [of pq] by auto
  from 3 have "current \<notin> visited" "visited1 = insert current visited" by simp_all
  then have "(snd ` set pq1 \<union> neighbor_names g) - visited1
      \<subset> (snd ` set pq \<union> neighbor_names g) - visited"
    using sub cur by blast
  then have "card ((snd ` set pq1 \<union> neighbor_names g) - visited1)
      < card ((snd ` set pq \<union> neighbor_names g) - visited)"
    by (intro psubset_card_mono) (auto simp: finite_neighbor_names)
  then show ?case by simp
next
  case (4 g dest pq visited distances previous popped current_dist current pq1 visited1 dc nbrs
      res pq2 rest distances2 previous2)
  then have sub: "snd ` set pq1 \<subseteq> snd ` set pq"
    using heappop_rest [of pq] by auto
  from 4 have cur: "current \<in> snd ` set pq"
    using heappop_mem [of pq] by auto
  from 4 have "relax current current_dist visited1 nbrs (pq1, distances, previous)
      = Inr (pq2, distances2, previous2)" by simp
  from relax_queue [OF this] have "snd ` set pq2 \<subseteq> snd ` set pq1 \<union> fst ` set nbrs"
    by simp
  moreover from 4 have "fst ` set nbrs \<subseteq> neighbor_names g"
    using neighbors_in_names by simp
  ultimately have "snd ` set pq2 \<subseteq> snd ` set pq \<union> neighbor_names g"
    using sub by blast
  moreover from 4 have "current \<notin> visited" "visited1 = insert current visited" by simp_all
  ultimately have "(snd ` set pq2 \<union> neighbor_names g) - visited1
      \<subset> (snd ` set pq \<union> neighbor_names g) - visited"
    using cur by blast
  then have "card ((snd ` set pq2 \<union> neighbor_names g) - visited1)
      < card ((snd ` set pq \<union> neighbor_names g) - visited)"
    by (intro psubset_card_mono) (auto simp: finite_neighbor_names)
  then show ?case by simp
qed

lemma potential_extend:
  assumes "n \<in> neighbor_names g" "n \<notin> set pth"
  shows "potential g (c', d', n, pth @ [n], l') < potential g (c, d, cur, pth, l)"
proof -
  have "neighbor_names g - set (pth @ [n]) \<subset> neighbor_names g - set pth"
    using assms by auto
  then show ?thesis
    unfolding potential_def by (simp add: psubset_card_mono finite_neighbor_names)
qed

lemma fold_expand:
  assumes "fst ` set nbrs \<subseteq> neighbor_names g"
  shows "\<exists>news. fold (expand g e) nbrs pq = news @ pq
           \<and> (\<forall>x \<in> set news. potential g x < potential g e)"
  using assms
proof (induction nbrs arbitrary: pq)
  case Nil
  then show ?case by simp
next
  case (Cons nb rest)
  obtain c d cur pth l where e: "e = (c, d, cur, pth, l)" by (cases e)
  obtain n w where nb: "nb = (n, w)" by (cases nb)
  from Cons.prems nb have n: "n \<in> neighbor_names g" and rest: "fst ` set rest \<subseteq> neighbor_names g"
    by auto
  have "\<exists>one. expand g e nb pq = one @ pq \<and> (\<forall>x \<in> set one. potential g x < potential g e)"
  proof (cases "n \<in> set pth")
    case True
    then show ?thesis by (simp add: expand_def e nb)
  next
    case False
    then show ?thesis
      using potential_extend [OF n False]
      by (auto simp: expand_def e nb heappush_def Let_def)
  qed
  then obtain one where one: "expand g e nb pq = one @ pq"
    "\<forall>x \<in> set one. potential g x < potential g e" by blast
  from Cons.IH [OF rest, of "one @ pq"] obtain news where
    "fold (expand g e) rest (one @ pq) = news @ one @ pq"
    "\<forall>x \<in> set news. potential g x < potential g e" by blast
  with one show ?case
    by (intro exI [of _ "news @ one"]) auto
qed

lemma arg_min_list_mem: "pq \<noteq> [] \<Longrightarrow> arg_min_list f pq \<in> set pq"
  by (rule arg_min_list_in)

termination least_changes_loop
proof (relation "inv_image (mult less_than)
    (\<lambda>(g, dest, pq, visited). mset (map (potential g) pq))", goal_cases)
  case 1
  show ?case by (simp add: wf_mult)
next
  case (2 g dest pq visited e pq1 changes d current pth current_lines)
  then have mem: "e \<in> set pq" using arg_min_list_in [of pq lc_key] by simp
  with 2 have "mset pq = mset pq1 + {#e#}" by simp
  then have "mset (map (potential g) pq) = mset (map (potential g) pq1) + {#potential g e#}"
    by (metis image_mset_single image_mset_union mset_map)
  moreover have "(mset (map (potential g) pq1) + {#}, mset (map (potential g) pq1) + {#potential g e#})
      \<in> mult less_than"
    by (rule one_step_implies_mult) auto
  ultimately show ?case by simp
next
  case (3 g dest pq visited e pq1 changes d current pth current_lines nbrs)
  then have mem: "e \<in> set pq" using arg_min_list_in [of pq lc_key] by simp
  with 3 have "mset pq = mset pq1 + {#e#}" by simp
  then have old: "mset (map (potential g) pq) = mset (map (potential g) pq1) + {#potential g e#}"
    by (metis image_mset_single image_mset_union mset_map)
  from 3 have "fst ` set nbrs \<subseteq> neighbor_names g"
    using neighbors_in_names by simp
  from fold_expand [OF this, of e pq1] obtain news where
    news: "fold (expand g e) nbrs pq1 = news @ pq1"
      "\<forall>x \<in> set news. potential g x < potential g e" by blast
  have "(mset (map (potential g) pq1) + mset (map (potential g) news),
         mset (map (potential g) pq1) + {#potential g e#}) \<in> mult less_than"
    by (rule one_step_implies_mult) (use news in auto)
  with old news show ?case by (simp add: ac_simps)
qed

declare dijkstra_loop.simps [simp del]
declare least_changes_loop.simps [simp del]
declare backtrack.simps [code]

section \<open>Rules for the loops of the shortest-path search\<close>

lemma relax_rule:
  assumes "relax c cd vis nbrs st = Inr st'" and "P st"
    and "\<And>n w pq ds pv dn. (n, w) \<in> set nbrs \<Longrightarrow> n \<notin> vis \<Longrightarrow> P (pq, ds, pv) \<Longrightarrow> ds n = Some dn
          \<Longrightarrow> Fin (cd + w) < dn
          \<Longrightarrow> P (heappush pq (cd + w, n), ds(n \<mapsto> Fin (cd + w)), pv(n \<mapsto> Some c))"
  shows "P st'"
  using assms
proof (induction nbrs arbitrary: st)
  case Nil
  then show ?case by simp
next
  case (Cons nb rest)
  obtain n w where nb: "nb = (n, w)" by (cases nb)
  obtain pq ds pv where st: "st = (pq, ds, pv)" by (cases st)
  have step: "P (heappush pq (cd + w, n), ds(n \<mapsto> Fin (cd + w)), pv(n \<mapsto> Some c))"
    if "(n, w) \<in> set rest" "n \<notin> vis" "P (pq, ds, pv)" "ds n = Some dn" "Fin (cd + w) < dn"
    for n w pq ds pv dn
    by (rule Cons.prems(3) [of n w pq ds pv dn]) (use that in simp_all)
  show ?case
  proof (cases "n \<in> vis")
    case True
    with Cons.prems(1) nb st have "relax c cd vis rest st = Inr st'" by simp
    from Cons.IH [OF this Cons.prems(2)] step show ?thesis by blast
  next
    case False
    with Cons.prems(1) nb st obtain dn where dn: "ds n = Some dn"
      by (cases "ds n") auto
    show ?thesis
    proof (cases "Fin (cd + w) < dn")
      case True
      with Cons.prems(1) nb st False dn
      have run: "relax c cd vis rest
              (heappush pq (cd + w, n), ds(n \<mapsto> Fin (cd + w)), pv(n \<mapsto> Some c)) = Inr st'"
        by (simp add: Let_def)
      have "P (heappush pq (cd + w, n), ds(n \<mapsto> Fin (cd + w)), pv(n \<mapsto> Some c))"
        by (rule Cons.prems(3) [of n w pq ds pv dn]) (use Cons.prems(2) nb st False dn True in simp_all)
      from Cons.IH [OF run this] step show ?thesis by blast
    next
      case no: False
      with Cons.prems(1) nb st False dn have "relax c cd vis rest st = Inr st'"
        by (simp add: Let_def)
      from Cons.IH [OF this Cons.prems(2)] step show ?thesis by blast
    qed
  qed
qed

lemma dijkstra_loop_rule:
  assumes run: "dijkstra_loop g dest pq vis ds pv = Inr (ds', pv')"
    and inv: "I pq vis ds pv"
    and skip: "\<And>pq vis ds pv. I pq vis ds pv \<Longrightarrow> pq \<noteq> [] \<Longrightarrow> snd (fst (heappop pq)) \<in> vis
          \<Longrightarrow> I (snd (heappop pq)) vis ds pv"
    and stale: "\<And>pq vis ds pv d u dc. I pq vis ds pv \<Longrightarrow> pq \<noteq> [] \<Longrightarrow> fst (heappop pq) = (d, u)
          \<Longrightarrow> u \<notin> vis \<Longrightarrow> u \<noteq> dest \<Longrightarrow> ds u = Some dc \<Longrightarrow> dc < Fin d
          \<Longrightarrow> I (snd (heappop pq)) (insert u vis) ds pv"
    and expand: "\<And>pq vis ds pv d u dc nbrs pq2 ds2 pv2. I pq vis ds pv \<Longrightarrow> pq \<noteq> []
          \<Longrightarrow> fst (heappop pq) = (d, u) \<Longrightarrow> u \<notin> vis \<Longrightarrow> u \<noteq> dest \<Longrightarrow> ds u = Some dc
          \<Longrightarrow> \<not> dc < Fin d \<Longrightarrow> map_of (graph g) u = Some nbrs
          \<Longrightarrow> relax u d (insert u vis) nbrs (snd (heappop pq), ds, pv) = Inr (pq2, ds2, pv2)
          \<Longrightarrow> I pq2 (insert u vis) ds2 pv2"
  shows "\<exists>pq vis. I pq vis ds' pv'
           \<and> (pq = [] \<or> (pq \<noteq> [] \<and> snd (fst (heappop pq)) = dest \<and> dest \<notin> vis))"
proof -
  have "g' = g \<longrightarrow> dest' = dest \<longrightarrow> dijkstra_loop g dest pq vis ds pv = Inr (ds', pv')
      \<longrightarrow> I pq vis ds pv
      \<longrightarrow> (\<exists>pq vis. I pq vis ds' pv'
             \<and> (pq = [] \<or> (pq \<noteq> [] \<and> snd (fst (heappop pq)) = dest \<and> dest \<notin> vis)))"
    for g' dest'
  proof (induction g' dest' pq vis ds pv rule: dijkstra_loop.induct)
    case (1 g' dest' pq vis ds pv)
    show ?case
    proof (intro impI)
      assume eq: "g' = g" "dest' = dest"
        and run: "dijkstra_loop g dest pq vis ds pv = Inr (ds', pv')"
        and inv: "I pq vis ds pv"
      note IH = "1.IH" [unfolded eq]
      let ?goal = "\<exists>pq vis. I pq vis ds' pv'
             \<and> (pq = [] \<or> (pq \<noteq> [] \<and> snd (fst (heappop pq)) = dest \<and> dest \<notin> vis))"
      show ?goal
      proof (cases "pq = []")
        case True
        with run have "ds' = ds" "pv' = pv" by (simp_all add: dijkstra_loop.simps)
        with inv True show ?thesis by blast
      next
        case ne: False
        let ?d = "fst (fst (heappop pq))" and ?u = "snd (fst (heappop pq))"
        let ?pq1 = "snd (heappop pq)"
        have pop: "fst (heappop pq) = (?d, ?u)" by simp
        note unfold = dijkstra_loop.simps [of g dest pq] Let_def
        show ?thesis
        proof (cases "?u \<in> vis")
          case True
          with run ne have "dijkstra_loop g dest ?pq1 vis ds pv = Inr (ds', pv')"
            by (simp add: unfold)
          moreover have "I ?pq1 vis ds pv" using skip [OF inv ne True] .
          ultimately show ?thesis
            using IH(1) [OF ne refl refl refl refl True] by simp
        next
          case unvis: False
          show ?thesis
          proof (cases "?u = dest")
            case True
            with run ne unvis have "ds' = ds" "pv' = pv"
              by (simp_all add: unfold)
            with inv ne unvis True show ?thesis
              by (intro exI [of _ pq] exI [of _ vis]) simp
          next
            case nd: False
            from run ne unvis nd obtain dc where dc: "ds ?u = Some dc"
              by (cases "ds ?u") (auto simp: unfold)
            show ?thesis
            proof (cases "dc < Fin ?d")
              case True
              with run ne unvis nd dc
              have "dijkstra_loop g dest ?pq1 (insert ?u vis) ds pv = Inr (ds', pv')"
                by (simp add: unfold)
              moreover have "I ?pq1 (insert ?u vis) ds pv"
                using stale [OF inv ne pop unvis nd dc True] .
              ultimately show ?thesis
                using IH(2) [OF ne refl refl refl refl unvis refl nd dc True] by simp
            next
              case fresh: False
              from run ne unvis nd dc fresh obtain nbrs where
                nbrs: "map_of (graph g) ?u = Some nbrs"
                by (cases "map_of (graph g) ?u") (auto simp: unfold)
              from run ne unvis nd dc fresh nbrs obtain pq2 ds2 pv2 where
                rel: "relax ?u ?d (insert ?u vis) nbrs (?pq1, ds, pv) = Inr (pq2, ds2, pv2)"
                by (cases "relax ?u ?d (insert ?u vis) nbrs (?pq1, ds, pv)") (auto simp: unfold)
              with run ne unvis nd dc fresh nbrs
              have "dijkstra_loop g dest pq2 (insert ?u vis) ds2 pv2 = Inr (ds', pv')"
                by (simp add: unfold)
              moreover have "I pq2 (insert ?u vis) ds2 pv2"
                using expand [OF inv ne pop unvis nd dc fresh nbrs rel] .
              ultimately show ?thesis
                using IH(3) [OF ne refl refl refl refl unvis refl nd dc fresh nbrs rel refl refl]
                by simp
            qed
          qed
        qed
      qed
    qed
  qed
  with run inv show ?thesis by blast
qed

section \<open>The searches always return\<close>

lemma ranked_insert:
  assumes "ranked vis pv" "u \<notin> vis"
  shows "ranked (insert u vis) pv"
proof -
  from assms(1) obtain rk :: "string \<Rightarrow> nat" and b where
    rk: "\<forall>n \<in> vis. rk n < b"
      "\<forall>n p. pv n = Some (Some p) \<longrightarrow> p \<in> vis \<and> (n \<in> vis \<longrightarrow> rk p < rk n)"
    unfolding ranked_def by blast
  let ?rk = "rk(u := b)"
  have "\<forall>n \<in> insert u vis. ?rk n < Suc b" using rk(1) by (auto simp: less_Suc_eq)
  moreover have "\<forall>n p. pv n = Some (Some p)
      \<longrightarrow> p \<in> insert u vis \<and> (n \<in> insert u vis \<longrightarrow> ?rk p < ?rk n)"
    using rk assms(2) by auto
  ultimately show ?thesis unfolding ranked_def by blast
qed

lemma ranked_update:
  assumes "ranked vis pv" "c \<in> vis" "n \<notin> vis"
  shows "ranked vis (pv(n \<mapsto> Some c))"
proof -
  from assms(1) obtain rk :: "string \<Rightarrow> nat" and b where
    rk: "\<forall>n \<in> vis. rk n < b"
      "\<forall>n p. pv n = Some (Some p) \<longrightarrow> p \<in> vis \<and> (n \<in> vis \<longrightarrow> rk p < rk n)"
    unfolding ranked_def by blast
  have "\<forall>m p. (pv(n \<mapsto> Some c)) m = Some (Some p) \<longrightarrow> p \<in> vis \<and> (m \<in> vis \<longrightarrow> rk p < rk m)"
    using rk(2) assms(2,3) by auto
  with rk(1) show ?thesis unfolding ranked_def by blast
qed

lemma backtrack_visited:
  assumes "ranked vis pv" "c \<in> vis"
  shows "\<exists>r. backtrack pv (Some c) acc = Some r"
proof -
  from assms(1) obtain rk :: "string \<Rightarrow> nat" and b where
    rk: "\<forall>n p. pv n = Some (Some p) \<longrightarrow> p \<in> vis \<and> (n \<in> vis \<longrightarrow> rk p < rk n)"
    unfolding ranked_def by blast
  from assms(2) show ?thesis
  proof (induction "rk c" arbitrary: c acc rule: less_induct)
    case less
    show ?case
    proof (cases "c = [] \<or> pv c = None \<or> pv c = Some None")
      case True
      then show ?thesis
        by (subst backtrack.simps) (auto simp: backtrack.simps [of pv None])
    next
      case False
      then obtain p where p: "pv c = Some (Some p)" and c: "c \<noteq> []" by auto
      with rk less.prems have "p \<in> vis" "rk p < rk c" by auto
      from less.hyps [OF this(2) this(1)] obtain r where
        "backtrack pv (Some p) (acc @ [c]) = Some r" by blast
      with p c show ?thesis by (subst backtrack.simps) simp
    qed
  qed
qed

lemma backtrack_total:
  assumes "ranked vis pv"
  shows "\<exists>r. backtrack pv cur acc = Some r"
proof (cases cur)
  case None
  then show ?thesis by (simp add: backtrack.simps)
next
  case (Some c)
  show ?thesis
  proof (cases "c = [] \<or> pv c = None \<or> pv c = Some None")
    case True
    with Some show ?thesis
      by (subst backtrack.simps) (auto simp: backtrack.simps [of pv None])
  next
    case False
    then obtain p where p: "pv c = Some (Some p)" and c: "c \<noteq> []" by auto
    with assms have "p \<in> vis" unfolding ranked_def by blast
    from backtrack_visited [OF assms this] obtain r where
      "backtrack pv (Some p) (acc @ [c]) = Some r" by blast
    with p c Some show ?thesis by (subst backtrack.simps) simp
  qed
qed

lemma dijkstra_loop_ranked:
  assumes "dijkstra_loop g dest pq vis ds pv = Inr (ds', pv')" "ranked vis pv"
  shows "\<exists>vis'. ranked vis' pv'"
proof -
  have "\<exists>(pq :: (real \<times> string) list) vis. ranked vis pv'
      \<and> (pq = [] \<or> (pq \<noteq> [] \<and> snd (fst (heappop pq)) = dest \<and> dest \<notin> vis))"
    using assms(1)
  proof (rule dijkstra_loop_rule [where I = "\<lambda>pq vis ds pv. ranked vis pv"], goal_cases)
    case 1
    show ?case by (rule assms(2))
  next
    case (2 pq vis ds pv)
    then show ?case by simp
  next
    case (3 pq vis ds pv d u dc)
    then show ?case by (simp add: ranked_insert)
  next
    case (4 pq vis ds pv d u dc nbrs pq2 ds2 pv2)
    have "case (pq2, ds2, pv2) of (pq, ds, pv) \<Rightarrow> ranked (insert u vis) pv"
    proof (rule relax_rule [OF 4(9)], goal_cases)
      case 1
      from 4 show ?case by (simp add: ranked_insert)
    next
      case (2 n w pq ds pv dn)
      then show ?case by (simp add: ranked_update)
    qed
    then show ?case by simp
  qed
  then show ?thesis by blast
qed

lemma map_of_const_None: "map_of (map (\<lambda>s. (s, None)) xs) n \<noteq> Some (Some p)"
  by (induction xs) auto

lemma shortest_path_body_total: "\<exists>r. shortest_path_body g start dest = Some r"
proof -
  let ?pv0 = "map_of (map (\<lambda>s. (s, None :: string option)) (stations g))"
  have init: "ranked {} ?pv0"
    unfolding ranked_def by (auto simp: map_of_const_None)
  have bt: False
    if "dijkstra_loop g e pq {} ds ?pv0 = Inr (ds', pv')" "backtrack pv' cur acc = None"
    for e pq ds ds' pv' cur acc
    using dijkstra_loop_ranked [OF that(1) init] backtrack_total [of _ pv' cur acc] that(2)
    by auto
  show ?thesis
    unfolding shortest_path_body_def Let_def
    by (auto split: option.splits sum.splits dist.splits prod.splits dest: bt)
qed

lemma catch_all_Inr: "catch_all r = Inr (case r of Inl e \<Rightarrow> no_route | Inr x \<Rightarrow> x)"
  by (cases r) (simp_all add: catch_all_def)

lemma find_shortest_path_total: "\<exists>r. find_shortest_path g start dest = Some (Inr r)"
proof -
  obtain b where "shortest_path_body g start dest = Some b"
    using shortest_path_body_total by blast
  then have "find_shortest_path g start dest
      = Some (Inr (if start = [] \<or> dest = [] then no_route
                   else case b of Inl e \<Rightarrow> no_route | Inr x \<Rightarrow> x))"
    by (simp add: find_shortest_path_def catch_all_Inr)
  then show ?thesis by (rule exI)
qed

lemma find_route_least_changes_total: "\<exists>r. find_route_least_changes g start dest = Inr r"
proof -
  have "find_route_least_changes g start dest
      = Inr (if start = [] \<or> dest = [] then no_route
             else case least_changes_body g start dest of Inl e \<Rightarrow> no_route | Inr x \<Rightarrow> x)"
    by (simp add: find_route_least_changes_def catch_all_Inr)
  then show ?thesis by (rule exI)
qed

section \<open>Unknown and empty names\<close>

lemma unresolved_no_route:
  assumes "resolve g start = None \<or> resolve g dest = None"
  shows "find_shortest_path g start dest = Some (Inr no_route)"
    and "find_route_least_changes g start dest = Inr no_route"
proof -
  from assms have "shortest_path_body g start dest = Some (Inr no_route)"
    by (auto simp: shortest_path_body_def resolve_def Let_def split: option.splits)
  then show "find_shortest_path g start dest = Some (Inr no_route)"
    by (simp add: find_shortest_path_def catch_all_def)
  from assms have "least_changes_body g start dest = Inr no_route"
    by (auto simp: least_changes_body_def resolve_def Let_def split: option.splits)
  then show "find_route_least_changes g start dest = Inr no_route"
    by (simp add: find_route_least_changes_def catch_all_def)
qed

text \<open>
  C1, as the code has it: a name that does not resolve is not reported by an exception. Both
  searches return normally, with the empty path, distance 0 and no line change.
\<close>

theorem unknown_station_empty_result:
  assumes "resolve g start = None \<or> resolve g dest = None"
  shows "find_shortest_path g start dest = Some (Inr ([], 0, []))
    \<and> find_route_least_changes g start dest = Inr ([], 0, [])"
  using unresolved_no_route [OF assms] by (simp add: no_route_def)

theorem unknown_station_empty_result_witness:
  "resolve broken_network ''Fake Station'' = None
    \<and> find_shortest_path broken_network ''Fake Station'' ''a'' = Some (Inr ([], 0, []))
    \<and> find_route_least_changes broken_network ''Fake Station'' ''a'' = Inr ([], 0, [])"
proof -
  have r: "resolve broken_network ''Fake Station'' = None" by code_simp
  then have "resolve broken_network ''Fake Station'' = None \<or> resolve broken_network ''a'' = None"
    by simp
  from unknown_station_empty_result [OF this] r show ?thesis by simp
qed

text \<open>
  C9: both searches return a triple for every pair of strings, and no exception reaches the
  caller; an empty name and a failure inside the search give the empty result.
\<close>

theorem searches_total:
  "(\<exists>r. find_shortest_path g start dest = Some (Inr r))
    \<and> (\<exists>r. find_route_least_changes g start dest = Inr r)
    \<and> (start = [] \<or> dest = [] \<longrightarrow>
          find_shortest_path g start dest = Some (Inr ([], 0, []))
          \<and> find_route_least_changes g start dest = Inr ([], 0, []))
    \<and> (start \<noteq> [] \<and> dest \<noteq> [] \<and> (\<exists>e. shortest_path_body g start dest = Some (Inl e)) \<longrightarrow>
          find_shortest_path g start dest = Some (Inr ([], 0, [])))
    \<and> (start \<noteq> [] \<and> dest \<noteq> [] \<and> (\<exists>e. least_changes_body g start dest = Inl e) \<longrightarrow>
          find_route_least_changes g start dest = Inr ([], 0, []))"
proof (intro conjI impI)
  show "\<exists>r. find_shortest_path g start dest = Some (Inr r)"
    by (rule find_shortest_path_total)
  show "\<exists>r. find_route_least_changes g start dest = Inr r"
    by (rule find_route_least_changes_total)
  show "find_shortest_path g start dest = Some (Inr ([], 0, []))" if "start = [] \<or> dest = []"
    using that by (auto simp: find_shortest_path_def no_route_def)
  show "find_route_least_changes g start dest = Inr ([], 0, [])" if "start = [] \<or> dest = []"
    using that by (auto simp: find_route_least_changes_def no_route_def)
  show "find_shortest_path g start dest = Some (Inr ([], 0, []))"
    if "start \<noteq> [] \<and> dest \<noteq> [] \<and> (\<exists>e. shortest_path_body g start dest = Some (Inl e))"
    using that by (auto simp: find_shortest_path_def catch_all_def no_route_def)
  show "find_route_least_changes g start dest = Inr ([], 0, [])"
    if "start \<noteq> [] \<and> dest \<noteq> [] \<and> (\<exists>e. least_changes_body g start dest = Inl e)"
    using that by (auto simp: find_route_least_changes_def catch_all_def no_route_def)
qed

theorem searches_total_witness:
  "shortest_path_body broken_network ''a'' ''c'' = Some (Inl (KeyError ''b''))
    \<and> least_changes_body broken_network ''a'' ''c'' = Inl (KeyError ''b'')
    \<and> find_shortest_path broken_network ''a'' ''c'' = Some (Inr ([], 0, []))
    \<and> find_route_least_changes broken_network ''a'' ''c'' = Inr ([], 0, [])
    \<and> find_shortest_path broken_network [] ''c'' = Some (Inr ([], 0, []))
    \<and> find_route_least_changes broken_network [] ''c'' = Inr ([], 0, [])"
proof -
  have b1: "shortest_path_body broken_network ''a'' ''c'' = Some (Inl (KeyError ''b''))"
    by code_simp
  have b2: "least_changes_body broken_network ''a'' ''c'' = Inl (KeyError ''b'')"
    by code_simp
  from b1 b2 searches_total [of broken_network "''a''" "''c''"]
    searches_total [of broken_network "[]" "''c''"]
  show ?thesis by simp
qed

section \<open>Fares\<close>

text \<open>
  C4: the token fare follows the tier table with inclusive upper bounds, the smart-card fare
  is the floor of nine tenths of it, the savings are their difference, and the recommended
  fare is the smart-card fare when the flag is set and the token fare otherwise.
\<close>

theorem calculate_fare_tiers:
  "token_fare (calculate_fare d flag) =
      (if d \<le> 2 then 10 else if d \<le> 5 then 20 else if d \<le> 12 then 30
       else if d \<le> 21 then 40 else if d \<le> 32 then 50 else 60)
    \<and> smart_card_fare (calculate_fare d flag) =
      \<lfloor>real_of_int (token_fare (calculate_fare d flag)) * 0.9\<rfloor>
    \<and> savings (calculate_fare d flag) =
      token_fare (calculate_fare d flag) - smart_card_fare (calculate_fare d flag)
    \<and> recommended_fare (calculate_fare d flag) =
      (if flag then smart_card_fare (calculate_fare d flag)
       else token_fare (calculate_fare d flag))"
  by (simp add: calculate_fare_def Let_def)

theorem calculate_fare_tiers_witness:
  "token_fare (calculate_fare 2 True) = 10 \<and> smart_card_fare (calculate_fare 2 True) = 9
    \<and> savings (calculate_fare 2 True) = 1 \<and> recommended_fare (calculate_fare 2 True) = 9
    \<and> token_fare (calculate_fare 32.1 False) = 60
    \<and> recommended_fare (calculate_fare 32.1 False) = 60"
  using calculate_fare_tiers [of 2 True] calculate_fare_tiers [of "32.1" False]
  by simp

lemma smart_card_fare_values:
  "smart_card_fare (calculate_fare d flag) =
      (if d \<le> 2 then 9 else if d \<le> 5 then 18 else if d \<le> 12 then 27
       else if d \<le> 21 then 36 else if d \<le> 32 then 45 else 54)"
  by (simp add: calculate_fare_def Let_def)

section \<open>All routes\<close>



text \<open>
  The claim C1 as it is written fails: for a name that no station has, neither search ends
  with an error. Both return the empty result.
\<close>

theorem unknown_station_counterexample:
  "resolve line_network ''Fake Station'' = None
    \<and> find_shortest_path line_network ''Fake Station'' ''A'' = Some (Inr ([], 0, []))
    \<and> find_route_least_changes line_network ''Fake Station'' ''A'' = Inr ([], 0, [])"
  by code_simp

section \<open>A rule for the loop of the least-changes search\<close>

lemma expand_successor:
  "expand g e nb pq = (if fst nb \<in> set (e_path e) then pq else successor g e nb # pq)"
  by (cases e; cases nb) (simp add: expand_def successor_def heappush_def Let_def)

lemma set_fold_expand:
  "set (fold (expand g e) nbrs pq)
    = set pq \<union> successor g e ` {nb \<in> set nbrs. fst nb \<notin> set (e_path e)}"
  by (induction nbrs arbitrary: pq) (auto simp: expand_successor)

lemma least_changes_loop_rule:
  assumes inv: "I pq vis"
    and prune: "\<And>pq vis e. I pq vis \<Longrightarrow> pq \<noteq> [] \<Longrightarrow> e = arg_min_list lc_key pq
          \<Longrightarrow> e_station e \<noteq> dest
          \<Longrightarrow> (case vis (e_station e, e_lines e) of None \<Rightarrow> False | Some c \<Rightarrow> c \<le> e_changes e)
          \<Longrightarrow> I (remove1 e pq) vis"
    and expand: "\<And>pq vis e nbrs. I pq vis \<Longrightarrow> pq \<noteq> [] \<Longrightarrow> e = arg_min_list lc_key pq
          \<Longrightarrow> e_station e \<noteq> dest
          \<Longrightarrow> \<not> (case vis (e_station e, e_lines e) of None \<Rightarrow> False | Some c \<Rightarrow> c \<le> e_changes e)
          \<Longrightarrow> map_of (graph g) (e_station e) = Some nbrs
          \<Longrightarrow> I (fold (expand g e) nbrs (remove1 e pq))
                (vis((e_station e, e_lines e) \<mapsto> e_changes e))"
  shows "\<exists>pq' vis'. I pq' vis' \<and>
      (pq' = [] \<and> least_changes_loop g dest pq vis = Inr no_route
       \<or> pq' \<noteq> [] \<and> e_station (arg_min_list lc_key pq') = dest
          \<and> least_changes_loop g dest pq vis
              = Inr (e_path (arg_min_list lc_key pq'), round2 (e_dist (arg_min_list lc_key pq')),
                     identify_line_changes g (e_path (arg_min_list lc_key pq')))
       \<or> pq' \<noteq> [] \<and> e_station (arg_min_list lc_key pq') \<noteq> dest
          \<and> map_of (graph g) (e_station (arg_min_list lc_key pq')) = None
          \<and> least_changes_loop g dest pq vis = Inl (KeyError (e_station (arg_min_list lc_key pq'))))"
    (is "\<exists>pq' vis'. ?Q pq' vis' pq vis")
proof -
  have "g' = g \<longrightarrow> dest' = dest \<longrightarrow> I pq vis \<longrightarrow> (\<exists>pq' vis'. ?Q pq' vis' pq vis)" for g' dest'
  proof (induction g' dest' pq vis rule: least_changes_loop.induct)
    case (1 g' dest' pq vis)
    show ?case
    proof (intro impI)
      assume eq: "g' = g" "dest' = dest" and inv: "I pq vis"
      note IH = "1.IH" [unfolded eq]
      let ?e = "arg_min_list lc_key pq"
      note unfold = least_changes_loop.simps [of g dest pq] Let_def
      show "\<exists>pq' vis'. ?Q pq' vis' pq vis"
      proof (cases "pq = []")
        case True
        then have "least_changes_loop g dest pq vis = Inr no_route"
          by (simp add: least_changes_loop.simps [of g dest "[]"])
        with inv True show ?thesis by blast
      next
        case ne: False
        show ?thesis
        proof (cases "e_station ?e = dest")
          case True
          with ne have "least_changes_loop g dest pq vis
              = Inr (e_path ?e, round2 (e_dist ?e), identify_line_changes g (e_path ?e))"
            by (simp add: unfold)
          with inv ne True show ?thesis by blast
        next
          case nd: False
          show ?thesis
          proof (cases "case vis (e_station ?e, e_lines ?e) of None \<Rightarrow> False
              | Some c \<Rightarrow> c \<le> e_changes ?e")
            case True
            with ne nd have run: "least_changes_loop g dest pq vis
                = least_changes_loop g dest (remove1 ?e pq) vis"
              by (simp add: unfold)
            have "I (remove1 ?e pq) vis" using prune [OF inv ne refl nd True] .
            with IH(1) [OF ne refl refl refl refl refl refl refl nd True]
            obtain pq' vis' where q: "?Q pq' vis' (remove1 ?e pq) vis" by blast
            show ?thesis unfolding run
              by (intro exI [of _ pq'] exI [of _ vis']) (rule q)
          next
            case fresh: False
            show ?thesis
            proof (cases "map_of (graph g) (e_station ?e)")
              case None
              with ne nd fresh have "least_changes_loop g dest pq vis
                  = Inl (KeyError (e_station ?e))"
                by (simp add: unfold)
              with inv ne nd None show ?thesis by blast
            next
              case (Some nbrs)
              let ?pq2 = "fold (expand g ?e) nbrs (remove1 ?e pq)"
              let ?vis2 = "vis((e_station ?e, e_lines ?e) \<mapsto> e_changes ?e)"
              from ne nd fresh Some have run: "least_changes_loop g dest pq vis
                  = least_changes_loop g dest ?pq2 ?vis2"
                by (simp add: unfold)
              have "I ?pq2 ?vis2" using expand [OF inv ne refl nd fresh Some] .
              with IH(2) [OF ne refl refl refl refl refl refl refl nd fresh Some]
              obtain pq' vis' where q: "?Q pq' vis' ?pq2 ?vis2" by blast
              show ?thesis unfolding run
                by (intro exI [of _ pq'] exI [of _ vis']) (rule q)
            qed
          qed
        qed
      qed
    qed
  qed
  with inv show ?thesis by blast
qed

section \<open>Walks\<close>

lemma is_walk_snoc:
  "is_walk g p \<Longrightarrow> p \<noteq> [] \<Longrightarrow> adjacent g (last p) b \<Longrightarrow> is_walk g (p @ [b])"
  by (induction g p rule: is_walk.induct) auto

lemma is_walk_Cons:
  "is_walk g (a # p) \<longleftrightarrow> p = [] \<or> (adjacent g a (hd p) \<and> is_walk g p)"
  by (cases p) auto

lemma is_walk_nth:
  "is_walk g p \<Longrightarrow> Suc i < length p \<Longrightarrow> adjacent g (p ! i) (p ! Suc i)"
proof (induction g p arbitrary: i rule: is_walk.induct)
  case (3 g a b rest)
  then show ?case by (cases i) auto
qed auto

lemma route_refl: "route g a [a] a"
  by (simp add: route_def)

lemma route_snoc: "route g a p b \<Longrightarrow> adjacent g b c \<Longrightarrow> route g a (p @ [c]) c"
  by (auto simp: route_def is_walk_snoc)

lemma reachable_refl: "reachable g a a"
  unfolding reachable_def using route_refl by blast

lemma reachable_step: "reachable g a b \<Longrightarrow> adjacent g b c \<Longrightarrow> reachable g a c"
  unfolding reachable_def using route_snoc by blast

lemma adjacent_neighbor:
  "map_of (graph g) u = Some nbrs \<Longrightarrow> (n, w) \<in> set nbrs \<Longrightarrow> adjacent g u n"
  by (force simp: adjacent_def)

section \<open>What the searches return\<close>

lemma shortest_path_result:
  assumes "find_shortest_path g start dest = Some (Inr x)"
  shows "x = no_route \<or> (\<exists>a b ds1 pv1 dv pth.
      resolve g start = Some a \<and> resolve g dest = Some b
    \<and> a \<in> fst ` set (graph g) \<and> b \<in> fst ` set (graph g)
    \<and> dijkstra_loop g b [(0, a)] {} (init_distances g a) (init_previous g) = Inr (ds1, pv1)
    \<and> ds1 b = Some (Fin dv) \<and> backtrack pv1 (Some b) [] = Some (Inr pth)
    \<and> x = (rev pth, round2 dv, identify_line_changes g (rev pth)))"
proof (cases "x = no_route")
  case False
  with assms have ne: "start \<noteq> []" "dest \<noteq> []"
    by (auto simp: find_shortest_path_def split: if_splits)
  with assms obtain r where body: "shortest_path_body g start dest = Some r"
    and r: "catch_all r = Inr x"
    by (auto simp: find_shortest_path_def)
  from r False have r': "r = Inr x"
    by (cases r) (auto simp: catch_all_def)
  from body [unfolded r'] False show ?thesis
    unfolding shortest_path_body_def resolve_def Let_def
    by (auto split: option.splits sum.splits dist.splits prod.splits if_splits)
qed simp

lemma least_changes_result:
  assumes "find_route_least_changes g start dest = Inr x"
  shows "x = no_route \<or> (\<exists>a b. resolve g start = Some a \<and> resolve g dest = Some b
    \<and> least_changes_loop g b [(0, 0, a, [a], lines_of g a)] Map.empty = Inr x)"
proof (cases "x = no_route")
  case False
  with assms have ne: "start \<noteq> []" "dest \<noteq> []"
    by (auto simp: find_route_least_changes_def split: if_splits)
  with assms have r: "catch_all (least_changes_body g start dest) = Inr x"
    by (auto simp: find_route_least_changes_def)
  from r False have "least_changes_body g start dest = Inr x"
    by (cases "least_changes_body g start dest") (auto simp: catch_all_def)
  with False show ?thesis
    unfolding least_changes_body_def resolve_def Let_def
    by (auto split: option.splits)
qed simp

section \<open>Path continuity\<close>

lemma dijkstra_loop_links:
  assumes "dijkstra_loop g dest pq vis ds pv = Inr (ds', pv')" "links g pv"
  shows "links g pv'"
proof -
  have "\<exists>(pq :: (real \<times> string) list) vis. links g pv'
      \<and> (pq = [] \<or> (pq \<noteq> [] \<and> snd (fst (heappop pq)) = dest \<and> dest \<notin> vis))"
    using assms(1)
  proof (rule dijkstra_loop_rule [where I = "\<lambda>pq vis ds pv. links g pv"], goal_cases)
    case 1
    show ?case by (rule assms(2))
  next
    case (4 pq vis ds pv d u dc nbrs pq2 ds2 pv2)
    have "case (pq2, ds2, pv2) of (pq, ds, pv) \<Rightarrow> links g pv"
    proof (rule relax_rule [OF 4(9)], goal_cases)
      case 1
      from 4 show ?case by simp
    next
      case (2 n w pq ds pv dn)
      with 4(8) show ?case
        by (auto simp: links_def dest: adjacent_neighbor)
    qed
    then show ?case by simp
  qed simp_all
  then show ?thesis by blast
qed

lemma backtrack_walk:
  assumes "backtrack pv cur acc = Some (Inr p)" "links g pv" "is_walk g (rev acc)"
    "acc \<noteq> [] \<longrightarrow> (\<forall>c. cur = Some c \<longrightarrow> adjacent g c (last acc))"
  shows "is_walk g (rev p)"
proof -
  have "\<forall>p. r = Inr p \<longrightarrow> links g pv \<longrightarrow> is_walk g (rev acc)
      \<longrightarrow> (acc \<noteq> [] \<longrightarrow> (\<forall>c. cur = Some c \<longrightarrow> adjacent g c (last acc)))
      \<longrightarrow> is_walk g (rev p)" if "backtrack pv cur acc = Some r" for r
  proof (rule backtrack.raw_induct [where P = "\<lambda>pv cur acc r. \<forall>p. r = Inr p \<longrightarrow> links g pv
      \<longrightarrow> is_walk g (rev acc)
      \<longrightarrow> (acc \<noteq> [] \<longrightarrow> (\<forall>c. cur = Some c \<longrightarrow> adjacent g c (last acc)))
      \<longrightarrow> is_walk g (rev p)", OF _ that], goal_cases)
    case (1 bt pv cur acc r)
    show ?case
    proof (intro allI impI)
      fix p
      assume r: "r = Inr p" and lk: "links g pv" and w: "is_walk g (rev acc)"
        and c: "acc \<noteq> [] \<longrightarrow> (\<forall>c. cur = Some c \<longrightarrow> adjacent g c (last acc))"
      show "is_walk g (rev p)"
      proof (cases cur)
        case None
        with 1(2) r w show ?thesis by simp
      next
        case (Some c')
        show ?thesis
        proof (cases "c' = []")
          case True
          with 1(2) r w Some show ?thesis by simp
        next
          case False
          with 1(2) r Some obtain nxt where nxt: "pv c' = Some nxt"
            and rec: "bt pv nxt (acc @ [c']) = Some r"
            by (cases "pv c'") auto
          have w': "is_walk g (rev (acc @ [c']))"
            using w c Some by (cases "acc = []") (auto simp: is_walk_Cons hd_rev)
          have c': "acc @ [c'] \<noteq> [] \<longrightarrow> (\<forall>c. nxt = Some c \<longrightarrow> adjacent g c (last (acc @ [c'])))"
            using lk nxt by (auto simp: links_def)
          from 1(1) [OF rec] r lk w' c' show ?thesis by blast
        qed
      qed
    qed
  qed
  with assms show ?thesis by blast
qed

lemma init_previous_links: "links g (init_previous g)"
  by (simp add: links_def map_of_const_None)

lemma shortest_path_walk:
  assumes "find_shortest_path g start dest = Some (Inr (p, d, ch))"
  shows "is_walk g p"
proof -
  from shortest_path_result [OF assms] show ?thesis
  proof
    assume "(p, d, ch) = no_route"
    then show ?thesis by (simp add: no_route_def)
  next
    assume "\<exists>a b ds1 pv1 dv pth.
      resolve g start = Some a \<and> resolve g dest = Some b
    \<and> a \<in> fst ` set (graph g) \<and> b \<in> fst ` set (graph g)
    \<and> dijkstra_loop g b [(0, a)] {} (init_distances g a) (init_previous g) = Inr (ds1, pv1)
    \<and> ds1 b = Some (Fin dv) \<and> backtrack pv1 (Some b) [] = Some (Inr pth)
    \<and> (p, d, ch) = (rev pth, round2 dv, identify_line_changes g (rev pth))"
    then obtain a b ds1 pv1 pth where
      run: "dijkstra_loop g b [(0, a)] {} (init_distances g a) (init_previous g) = Inr (ds1, pv1)"
      and bt: "backtrack pv1 (Some b) [] = Some (Inr pth)" and p: "p = rev pth"
      by blast
    have "links g pv1" by (rule dijkstra_loop_links [OF run init_previous_links])
    from backtrack_walk [OF bt this] p show ?thesis by simp
  qed
qed

lemma least_changes_loop_routes:
  assumes "least_changes_loop g dest pq vis = Inr x"
    "\<forall>e \<in> set pq. route g a (e_path e) (e_station e)"
  shows "x = no_route \<or> route g a (fst x) dest"
proof -
  let ?I = "\<lambda>pq (vis :: string \<times> string set \<rightharpoonup> nat).
    \<forall>e \<in> set pq. route g a (e_path e) (e_station e)"
  have "\<exists>pq' vis'. ?I pq' vis' \<and>
      (pq' = [] \<and> least_changes_loop g dest pq vis = Inr no_route
       \<or> pq' \<noteq> [] \<and> e_station (arg_min_list lc_key pq') = dest
          \<and> least_changes_loop g dest pq vis
              = Inr (e_path (arg_min_list lc_key pq'), round2 (e_dist (arg_min_list lc_key pq')),
                     identify_line_changes g (e_path (arg_min_list lc_key pq')))
       \<or> pq' \<noteq> [] \<and> e_station (arg_min_list lc_key pq') \<noteq> dest
          \<and> map_of (graph g) (e_station (arg_min_list lc_key pq')) = None
          \<and> least_changes_loop g dest pq vis = Inl (KeyError (e_station (arg_min_list lc_key pq'))))"
  proof (rule least_changes_loop_rule [where I = ?I], goal_cases)
    case 1
    show ?case by (rule assms(2))
  next
    case (2 pq vis e)
    then show ?case by (auto dest: notin_set_remove1)
  next
    case (3 pq vis e nbrs)
    have e: "e \<in> set pq" using 3(2,3) arg_min_list_in by blast
    with 3(1) have re: "route g a (e_path e) (e_station e)" by blast
    have "route g a (e_path (successor g e nb)) (e_station (successor g e nb))"
      if "nb \<in> set nbrs" for nb
    proof -
      from that have "(fst nb, snd nb) \<in> set nbrs" by simp
      from adjacent_neighbor [OF 3(6) this] have "adjacent g (e_station e) (fst nb)" .
      from route_snoc [OF re this] show ?thesis by (simp add: successor_def)
    qed
    with 3(1) show ?case
      by (auto simp: set_fold_expand dest: notin_set_remove1)
  qed
  then obtain pq' where I: "?I pq' vis"
    and res: "pq' = [] \<and> least_changes_loop g dest pq vis = Inr no_route
       \<or> pq' \<noteq> [] \<and> e_station (arg_min_list lc_key pq') = dest
          \<and> least_changes_loop g dest pq vis
              = Inr (e_path (arg_min_list lc_key pq'), round2 (e_dist (arg_min_list lc_key pq')),
                     identify_line_changes g (e_path (arg_min_list lc_key pq')))
       \<or> pq' \<noteq> [] \<and> e_station (arg_min_list lc_key pq') \<noteq> dest
          \<and> map_of (graph g) (e_station (arg_min_list lc_key pq')) = None
          \<and> least_changes_loop g dest pq vis = Inl (KeyError (e_station (arg_min_list lc_key pq')))"
    by blast
  show ?thesis
  proof (cases "x = no_route")
    case False
    with res assms(1) have ne: "pq' \<noteq> []" and st: "e_station (arg_min_list lc_key pq') = dest"
      and p: "fst x = e_path (arg_min_list lc_key pq')"
      by auto
    from ne have "arg_min_list lc_key pq' \<in> set pq'" by (rule arg_min_list_in)
    with I st p show ?thesis by auto
  qed simp
qed

lemma least_changes_walk:
  assumes "find_route_least_changes g start dest = Inr (p, d, ch)"
  shows "is_walk g p"
proof (cases "(p, d, ch) = no_route")
  case True
  then show ?thesis by (simp add: no_route_def)
next
  case False
  with least_changes_result [OF assms] obtain a b where
    "least_changes_loop g b [(0, 0, a, [a], lines_of g a)] Map.empty = Inr (p, d, ch)"
    by blast
  from least_changes_loop_routes [OF this, of a] False show ?thesis
    by (simp add: route_def)
qed

text \<open>
  C7: in a path returned by either search, every station is adjacent to the next one in the
  adjacency mapping of the network.
\<close>

theorem path_continuity:
  assumes "find_shortest_path g start dest = Some (Inr (p, d, ch))
      \<or> find_route_least_changes g start dest = Inr (p, d, ch)"
    and "Suc i < length p"
  shows "adjacent g (p ! i) (p ! Suc i)"
proof -
  from assms(1) have "is_walk g p"
    using shortest_path_walk least_changes_walk by blast
  from is_walk_nth [OF this assms(2)] show ?thesis .
qed

theorem path_continuity_witness:
  "find_shortest_path line_network ''A'' ''C'' = Some (Inr ([''A'', ''B'', ''C''], 2.5, []))
    \<and> adjacent line_network ''A'' ''B'' \<and> adjacent line_network ''B'' ''C''"
proof -
  have sp: "find_shortest_path line_network ''A'' ''C'' = Some (Inr ([''A'', ''B'', ''C''], 2.5, []))"
    by code_simp
  then have *: "find_shortest_path line_network ''A'' ''C'' = Some (Inr ([''A'', ''B'', ''C''], 2.5, []))
      \<or> find_route_least_changes line_network ''A'' ''C'' = Inr ([''A'', ''B'', ''C''], 2.5, [])"
    by simp
  from path_continuity [OF *, of 0] path_continuity [OF *, of 1] sp show ?thesis by simp
qed

section \<open>No route\<close>

lemma dijkstra_loop_reachable:
  assumes run: "dijkstra_loop g dest pq vis ds pv = Inr (ds', pv')"
    and pq: "\<forall>e \<in> set pq. reachable g a (snd e)"
    and ds: "\<forall>v d. ds v = Some (Fin d) \<longrightarrow> reachable g a v"
  shows "\<forall>v d. ds' v = Some (Fin d) \<longrightarrow> reachable g a v"
proof -
  let ?I = "\<lambda>(pq :: (real \<times> string) list) (vis :: string set) (ds :: string \<rightharpoonup> dist)
      (pv :: string \<rightharpoonup> string option).
    (\<forall>e \<in> set pq. reachable g a (snd e)) \<and> (\<forall>v d. ds v = Some (Fin d) \<longrightarrow> reachable g a v)"
  have "\<exists>pq vis. ?I pq vis ds' pv'
      \<and> (pq = [] \<or> (pq \<noteq> [] \<and> snd (fst (heappop pq)) = dest \<and> dest \<notin> vis))"
    using run
  proof (rule dijkstra_loop_rule [where I = ?I], goal_cases)
    case 1
    from pq ds show ?case by blast
  next
    case (2 pq vis ds pv)
    then show ?case using heappop_rest [of pq] by blast
  next
    case (3 pq vis ds pv d u dc)
    then show ?case using heappop_rest [of pq] by blast
  next
    case (4 pq vis ds pv d u dc nbrs pq2 ds2 pv2)
    from 4(2,3) have "(d, u) \<in> set pq" using heappop_mem [of pq] by simp
    with 4(1) have u: "reachable g a u" by force
    have "case (pq2, ds2, pv2) of (pq, ds, pv) \<Rightarrow> ?I pq (insert u vis) ds pv"
    proof (rule relax_rule [OF 4(9)], goal_cases)
      case 1
      from 4(1) show ?case using heappop_rest [of pq] by auto
    next
      case (2 n w pq ds pv dn)
      from adjacent_neighbor [OF 4(8) 2(1)] u have "reachable g a n"
        by (blast intro: reachable_step)
      with 2(3) show ?case by (auto simp: heappush_def)
    qed
    then show ?case by simp
  qed
  then show ?thesis by blast
qed

lemma init_distances_reachable:
  "\<forall>v d. init_distances g a v = Some (Fin d) \<longrightarrow> reachable g a v"
proof (intro allI impI)
  fix v d
  assume *: "init_distances g a v = Some (Fin d)"
  have "map_of (map (\<lambda>s. (s, Infinity)) xs) v \<noteq> Some (Fin d)" for xs :: "string list"
    by (induction xs) auto
  with * have "v = a" by (auto split: if_splits)
  then show "reachable g a v" by (simp add: reachable_refl)
qed

lemma shortest_path_unreachable:
  assumes "resolve g start = Some a" "resolve g dest = Some b" "\<not> reachable g a b"
  shows "find_shortest_path g start dest = Some (Inr no_route)"
proof -
  obtain x where x: "find_shortest_path g start dest = Some (Inr x)"
    using find_shortest_path_total by blast
  have "x = no_route"
  proof (rule ccontr)
    assume "x \<noteq> no_route"
    with shortest_path_result [OF x] assms(1,2) obtain ds1 pv1 dv where
      run: "dijkstra_loop g b [(0, a)] {} (init_distances g a) (init_previous g) = Inr (ds1, pv1)"
      and dv: "ds1 b = Some (Fin dv)"
      by auto
    have "\<forall>v d. ds1 v = Some (Fin d) \<longrightarrow> reachable g a v"
      by (rule dijkstra_loop_reachable [OF run _ init_distances_reachable])
        (simp add: reachable_refl)
    with dv assms(3) show False by blast
  qed
  with x show ?thesis by simp
qed

lemma least_changes_unreachable:
  assumes "resolve g start = Some a" "resolve g dest = Some b" "\<not> reachable g a b"
  shows "find_route_least_changes g start dest = Inr no_route"
proof -
  obtain x where x: "find_route_least_changes g start dest = Inr x"
    using find_route_least_changes_total by blast
  have "x = no_route"
  proof (rule ccontr)
    assume no: "x \<noteq> no_route"
    with least_changes_result [OF x] assms(1,2) have
      run: "least_changes_loop g b [(0, 0, a, [a], lines_of g a)] Map.empty = Inr x"
      by auto
    from least_changes_loop_routes [OF run, of a] no have "route g a (fst x) b"
      by (simp add: route_refl)
    with assms(3) show False unfolding reachable_def by blast
  qed
  with x show ?thesis by simp
qed

text \<open>
  C5: when the two names resolve to stations with no route between them, both searches
  return the empty path, distance 0 and no line change, as a normal result.
\<close>

theorem no_route_empty_result:
  assumes "resolve g start = Some a" "resolve g dest = Some b" "a \<noteq> b"
    and "\<not> (\<exists>p. route g a p b)"
  shows "find_shortest_path g start dest = Some (Inr ([], 0, []))
    \<and> find_route_least_changes g start dest = Inr ([], 0, [])"
proof -
  from assms(4) have "\<not> reachable g a b" by (simp add: reachable_def)
  from shortest_path_unreachable [OF assms(1,2) this]
    least_changes_unreachable [OF assms(1,2) this]
  show ?thesis by (simp add: no_route_def)
qed

lemma route_closed:
  assumes "route g a p b" "a \<in> S" "\<And>x y. x \<in> S \<Longrightarrow> adjacent g x y \<Longrightarrow> y \<in> S"
  shows "b \<in> S"
proof -
  have "is_walk g p \<Longrightarrow> p \<noteq> [] \<Longrightarrow> hd p \<in> S \<Longrightarrow> last p \<in> S" for p
  proof (induction p)
    case (Cons x xs)
    show ?case
    proof (cases "xs = []")
      case True
      with Cons.prems show ?thesis by simp
    next
      case False
      with Cons.prems have "adjacent g x (hd xs)" "is_walk g xs"
        by (simp_all add: is_walk_Cons)
      with Cons.prems assms(3) have "hd xs \<in> S" by auto
      with Cons.IH \<open>is_walk g xs\<close> False show ?thesis by simp
    qed
  qed simp
  with assms(1,2) show ?thesis by (auto simp: route_def)
qed

lemma split_network_graph:
  "graph split_network =
    [(''A'', [(''B'', 1.3)]), (''B'', [(''A'', 1.3)]), (''C'', [(''D'', 1.2)]), (''D'', [(''C'', 1.2)])]"
  by code_simp

theorem no_route_empty_result_witness:
  "resolve split_network ''A'' = Some ''A'' \<and> resolve split_network ''C'' = Some ''C''
    \<and> \<not> (\<exists>p. route split_network ''A'' p ''C'')
    \<and> find_shortest_path split_network ''A'' ''C'' = Some (Inr ([], 0, []))
    \<and> find_route_least_changes split_network ''A'' ''C'' = Inr ([], 0, [])"
proof -
  have a: "resolve split_network ''A'' = Some ''A''" by code_simp
  have c: "resolve split_network ''C'' = Some ''C''" by code_simp
  have ne: "''A'' \<noteq> ''C''" by simp
  have no: "\<not> (\<exists>p. route split_network ''A'' p ''C'')"
  proof
    assume "\<exists>p. route split_network ''A'' p ''C''"
    then obtain p where "route split_network ''A'' p ''C''" ..
    then have "''C'' \<in> {''A'', ''B''}"
      by (rule route_closed) (auto simp: adjacent_def split_network_graph split: if_splits)
    then show False by simp
  qed
  from no_route_empty_result [OF a c ne no] a c no show ?thesis by simp
qed

end
